theory Spec2Isabelle
  imports Main "HOL-Library.Char_ord" "HOL-Library.Sublist"
begin

section \<open>Bytes, slices and the library functions the parser calls\<close>

text \<open>
  The parser of \<^verbatim>\<open>compiler/parse.go\<close> works on a Go \<^verbatim>\<open>[]byte\<close> and integer offsets.
  A byte is a \<^typ>\<open>char\<close> (eight bits), the buffer a list of them, an offset a \<^typ>\<open>nat\<close>.
  A scan function of the source returns a new offset, negative for "no match"; here it
  returns an \<^typ>\<open>'a option\<close>, \<^term>\<open>None\<close> for the negative offset.
\<close>

type_synonym byte = char

text \<open>Go's \<^verbatim>\<open>buf[a:b]\<close>, used by the source only with \<open>a \<le> b \<le> len(buf)\<close>.\<close>

definition slice :: "'a list \<Rightarrow> nat \<Rightarrow> nat \<Rightarrow> 'a list" where
  "slice buf a b = take (b - a) (drop a buf)"

text \<open>
  \<^verbatim>\<open>unicode.IsSpace(rune(c))\<close> and \<^verbatim>\<open>unicode.IsDigit(rune(c))\<close> for a byte \<open>c\<close>: the rune is
  a Latin-1 code point, where the spaces are \<open>\t \n \v \f \r\<close>, the blank, U+0085 and U+00A0
  and the digits are \<open>0\<close> to \<open>9\<close>.
\<close>

definition isSpace :: "byte \<Rightarrow> bool" where
  "isSpace c = (c = CHR 0x09 \<or> c = CHR 0x0A \<or> c = CHR 0x0B \<or> c = CHR 0x0C \<or> c = CHR 0x0D
     \<or> c = CHR '' '' \<or> c = CHR 0x85 \<or> c = CHR 0xA0)"

definition isDigit :: "byte \<Rightarrow> bool" where
  "isDigit c = (CHR ''0'' \<le> c \<and> c \<le> CHR ''9'')"

text \<open>
  \<^verbatim>\<open>strconv.ParseInt(s, 10, 64)\<close> of the Go library: an optional sign, then decimal digits;
  a syntax error for anything else, a range error when the value is outside
  \<open>[-2^63, 2^63 - 1]\<close>. The result is the \<^verbatim>\<open>int64\<close>, kept as an \<^typ>\<open>int\<close> inside that range.
\<close>

datatype numError = ErrSyntax | ErrRange

definition digitVal :: "byte \<Rightarrow> int" where
  "digitVal c = int (of_char c - of_char (CHR ''0''))"

definition decimalVal :: "byte list \<Rightarrow> int" where
  "decimalVal ds = foldl (\<lambda>acc c. 10 * acc + digitVal c) 0 ds"

definition ParseUint :: "byte list \<Rightarrow> numError + int" where
  "ParseUint s =
     (if s = [] then Inl ErrSyntax
      else if \<not> list_all isDigit s then Inl ErrSyntax
      else if decimalVal s \<ge> 2 ^ 64 then Inl ErrRange
      else Inr (decimalVal s))"

definition ParseInt :: "byte list \<Rightarrow> numError + int" where
  "ParseInt s =
     (if s = [] then Inl ErrSyntax
      else
        (let neg = (hd s = CHR ''-'');
             s' = (if hd s = CHR ''+'' \<or> hd s = CHR ''-'' then tl s else s)
         in case ParseUint s' of
              Inl e \<Rightarrow> Inl e
            | Inr un \<Rightarrow>
                if \<not> neg \<and> un \<ge> 2 ^ 63 then Inl ErrRange
                else if neg \<and> un > 2 ^ 63 then Inl ErrRange
                else Inr (if neg then - un else un)))"

text \<open>
  \<^verbatim>\<open>hex.Decode\<close> of the Go library: two hexadecimal digits give one byte; an odd length or
  a byte that is no hexadecimal digit is an error.
\<close>

definition fromHexChar :: "byte \<Rightarrow> nat option" where
  "fromHexChar c =
     (if CHR ''0'' \<le> c \<and> c \<le> CHR ''9'' then Some (of_char c - of_char (CHR ''0''))
      else if CHR ''a'' \<le> c \<and> c \<le> CHR ''f'' then Some (of_char c - of_char (CHR ''a'') + 10)
      else if CHR ''A'' \<le> c \<and> c \<le> CHR ''F'' then Some (of_char c - of_char (CHR ''A'') + 10)
      else None)"

fun hexDecode :: "byte list \<Rightarrow> byte list option" where
  "hexDecode [] = Some []"
| "hexDecode [p] = None"
| "hexDecode (p # q # src) =
     (case fromHexChar p of
        None \<Rightarrow> None
      | Some a \<Rightarrow>
          (case fromHexChar q of
             None \<Rightarrow> None
           | Some b \<Rightarrow>
               (case hexDecode src of
                  None \<Rightarrow> None
                | Some dst \<Rightarrow> Some (char_of (16 * a + b) # dst))))"

section \<open>Parser errors\<close>

text \<open>
  \<^verbatim>\<open>parserErr\<close> holds the buffer, the offset (a Go \<^verbatim>\<open>int\<close>), a format and its arguments.
  The arguments the parser passes are strings; \<^verbatim>\<open>Error()\<close> puts the line and the column
  in front, two integers.
\<close>

datatype arg = IntArg nat | StrArg "byte list"

record parserErr =
  errBuf :: "byte list"
  errOffset :: int
  errFormat :: "byte list"
  errArgs :: "arg list"

definition parseErr :: "byte list \<Rightarrow> nat \<Rightarrow> byte list \<Rightarrow> arg list \<Rightarrow> parserErr" where
  "parseErr buf offset format args =
     \<lparr>errBuf = buf, errOffset = int offset, errFormat = format, errArgs = args\<rparr>"

text \<open>
  What stops a parser function before it returns: a panic with a \<^verbatim>\<open>parserErr\<close> (from
  \<^verbatim>\<open>p.errorf\<close> or \<^verbatim>\<open>panic(parseErr(...))\<close>), a panic with any other value (none is raised
  by \<^verbatim>\<open>parse.go\<close> itself; the import directives, parsed outside this file, may), or the
  recursion budget of this model running out.
\<close>

datatype abort = ParserPanic parserErr | OtherPanic "byte list" | OutOfFuel

section \<open>The scan layer\<close>

function skipLoop :: "byte list \<Rightarrow> nat \<Rightarrow> bool \<Rightarrow> nat" where
  "skipLoop buf offset inComment =
     (if offset < length buf then
        (if inComment then skipLoop buf (offset + 1) (buf ! offset \<noteq> CHR 0x0A)
         else if buf ! offset = CHR ''/'' \<and> offset < length buf - 1 \<and> buf ! (offset + 1) = CHR ''/''
           then skipLoop buf (offset + 2) True
         else if \<not> isSpace (buf ! offset) then offset
         else skipLoop buf (offset + 1) False)
      else offset)"
  by pat_completeness auto
termination
  by (relation "measure (\<lambda>(buf, offset, inComment). length buf - offset)") auto

declare skipLoop.simps [simp del]

definition skipWsAndComments :: "byte list \<Rightarrow> nat \<Rightarrow> nat" where
  "skipWsAndComments buf offset = skipLoop buf offset False"

definition isHexDigit :: "byte \<Rightarrow> bool" where
  "isHexDigit b = ((CHR ''0'' \<le> b \<and> b \<le> CHR ''9'') \<or> (CHR ''a'' \<le> b \<and> b \<le> CHR ''f'')
     \<or> (CHR ''A'' \<le> b \<and> b \<le> CHR ''F''))"

definition isIDChar :: "byte \<Rightarrow> bool \<Rightarrow> bool" where
  "isIDChar c initial =
     (if CHR ''a'' \<le> c \<and> c \<le> CHR ''z'' then True
      else if CHR ''A'' \<le> c \<and> c \<le> CHR ''Z'' then True
      else if c = CHR ''_'' then True
      else if initial then False
      else isDigit c)"

function idLoop :: "byte list \<Rightarrow> nat \<Rightarrow> nat \<Rightarrow> nat" where
  "idLoop buf offset i =
     (if i < length buf \<and> isIDChar (buf ! i) (i = offset) then idLoop buf offset (i + 1) else i)"
  by pat_completeness auto
termination
  by (relation "measure (\<lambda>(buf, offset, i). length buf - i)") auto

declare idLoop.simps [simp del]

definition scanIdentifier :: "byte list \<Rightarrow> nat \<Rightarrow> (byte list \<times> nat) option" where
  "scanIdentifier buf offset0 =
     (let offset = skipWsAndComments buf offset0;
          i = idLoop buf offset offset
      in if i = offset then None else Some (slice buf offset i, i))"

text \<open>
  \<^verbatim>\<open>bytes.HasPrefix(buf[offset:], prefix)\<close>. The slice needs \<open>offset \<le> len(buf)\<close>, which
  holds at every call: \<^verbatim>\<open>skipWsAndComments\<close> stays inside the buffer when it starts inside.
\<close>

definition scanTok :: "byte list \<Rightarrow> nat \<Rightarrow> byte list \<Rightarrow> nat option" where
  "scanTok buf offset0 s =
     (let offset = skipWsAndComments buf offset0
      in if prefix s (drop offset buf) then Some (offset + length s) else None)"

definition scanKeyword :: "byte list \<Rightarrow> nat \<Rightarrow> byte list \<Rightarrow> nat option" where
  "scanKeyword buf offset keyword =
     (case scanIdentifier buf offset of
        None \<Rightarrow> None
      | Some (ident, newOffset) \<Rightarrow> if ident \<noteq> keyword then None else Some newOffset)"

text \<open>The digit loop of \<^verbatim>\<open>scanIntLiteral\<close>; \<^term>\<open>None\<close> is its \<^verbatim>\<open>return 0, -1\<close>.\<close>

function intLoop :: "byte list \<Rightarrow> nat \<Rightarrow> nat option" where
  "intLoop buf i =
     (if i < length buf \<and> isDigit (buf ! i) then
        (if buf ! i = CHR ''0'' \<and> i < length buf - 1
            \<and> (buf ! (i + 1) = CHR ''x'' \<or> buf ! (i + 1) = CHR ''X'')
         then None
         else intLoop buf (i + 1))
      else Some i)"
  by pat_completeness auto
termination
  by (relation "measure (\<lambda>(buf, i). length buf - i)") auto

declare intLoop.simps [simp del]

definition scanIntLiteral :: "byte list \<Rightarrow> nat \<Rightarrow> (int \<times> nat) option" where
  "scanIntLiteral buf offset0 =
     (let start = skipWsAndComments buf offset0;
          offset = (if start < length buf \<and> buf ! start = CHR ''-'' then start + 1 else start)
      in case intLoop buf offset of
           None \<Rightarrow> None
         | Some i \<Rightarrow>
             if i > offset then
               (case ParseInt (slice buf start i) of
                  Inl err \<Rightarrow> None
                | Inr n \<Rightarrow> Some (n, i))
             else None)"

definition scanEscape :: "byte \<Rightarrow> byte \<times> bool" where
  "scanEscape c =
     (if c = CHR 0x27 \<or> c = CHR 0x22 \<or> c = CHR 0x5C then (c, True)
      else if c = CHR ''b'' then (CHR 0x08, True)
      else if c = CHR ''f'' then (CHR 0x0C, True)
      else if c = CHR ''n'' then (CHR 0x0A, True)
      else if c = CHR ''r'' then (CHR 0x0D, True)
      else if c = CHR ''t'' then (CHR 0x09, True)
      else if c = CHR ''v'' then (CHR 0x0B, True)
      else (c, False))"

function strLoop :: "byte list \<Rightarrow> nat \<Rightarrow> nat \<Rightarrow> byte list \<Rightarrow> abort + (byte list \<times> nat)" where
  "strLoop buf offset i byteBuf =
     (if i < length buf then
        (if (buf ! offset = CHR 0x27 \<and> buf ! i = CHR 0x27)
            \<or> (buf ! offset = CHR 0x22 \<and> buf ! i = CHR 0x22)
         then Inr (byteBuf, i + 1)
         else if buf ! i = CHR 0x5C \<and> i < length buf - 1 \<and> snd (scanEscape (buf ! (i + 1)))
           then strLoop buf offset (i + 2) (byteBuf @ [fst (scanEscape (buf ! (i + 1)))])
         else strLoop buf offset (i + 1) (byteBuf @ [buf ! i]))
      else Inl (ParserPanic (parseErr buf offset ''unterminated string literal'' [])))"
  by pat_completeness auto
termination
  by (relation "measure (\<lambda>(buf, offset, i, byteBuf). length buf - i)") auto

declare strLoop.simps [simp del]

definition scanStrLiteral :: "byte list \<Rightarrow> nat \<Rightarrow> abort + (byte list \<times> nat) option" where
  "scanStrLiteral buf offset0 =
     (let offset = skipWsAndComments buf offset0
      in if offset \<ge> length buf \<or> \<not> (buf ! offset = CHR 0x27 \<or> buf ! offset = CHR 0x22)
         then Inr None
         else (case strLoop buf offset (offset + 1) [] of
                 Inl e \<Rightarrow> Inl e
               | Inr r \<Rightarrow> Inr (Some r)))"

text \<open>
  The loop of \<^verbatim>\<open>scanBytesLiteral\<close>: it returns the index where it stops, or panics.
\<close>

function hexLoop :: "byte list \<Rightarrow> nat \<Rightarrow> nat \<Rightarrow> abort + nat" where
  "hexLoop buf offset i =
     (if i < length buf then
        (if i = length buf - 1
           then Inl (ParserPanic (parseErr buf offset ''odd number of digits in hex literal'' []))
         else if \<not> isHexDigit (buf ! i) then Inr i
         else if \<not> isHexDigit (buf ! (i + 1))
           then Inl (ParserPanic (parseErr buf offset ''odd number of digits in hex literal'' []))
         else hexLoop buf offset (i + 2))
      else Inr i)"
  by pat_completeness auto
termination
  by (relation "measure (\<lambda>(buf, offset, i). length buf - i)") auto

declare hexLoop.simps [simp del]

definition scanBytesLiteral :: "byte list \<Rightarrow> nat \<Rightarrow> abort + (byte list \<times> nat) option" where
  "scanBytesLiteral buf offset0 =
     (let offset = skipWsAndComments buf offset0
      in if offset + 4 \<ge> length buf then Inr None
         else if buf ! offset \<noteq> CHR ''0''
                 \<or> (buf ! (offset + 1) \<noteq> CHR ''x'' \<and> buf ! (offset + 1) \<noteq> CHR ''X'')
           then Inr None
         else if \<not> isHexDigit (buf ! (offset + 2)) \<or> \<not> isHexDigit (buf ! (offset + 3))
           then Inr None
         else (case hexLoop buf offset (offset + 4) of
                 Inl e \<Rightarrow> Inl e
               | Inr i \<Rightarrow>
                   (case hexDecode (slice buf (offset + 2) i) of
                      None \<Rightarrow> Inr None
                    | Some decoded \<Rightarrow> Inr (Some (decoded, i)))))"

definition scanBoolLiteral :: "byte list \<Rightarrow> nat \<Rightarrow> (bool \<times> nat) option" where
  "scanBoolLiteral buf offset0 =
     (let offset = skipWsAndComments buf offset0
      in if offset \<ge> length buf then None
         else (case scanKeyword buf offset ''true'' of
                 None \<Rightarrow>
                   (case scanKeyword buf offset ''false'' of
                      None \<Rightarrow> None
                    | Some newOffset \<Rightarrow> Some (False, newOffset))
               | Some newOffset \<Rightarrow> Some (True, newOffset)))"


section \<open>Abstract syntax\<close>

text \<open>
  The AST types are declared outside \<^verbatim>\<open>parse.go\<close>; they are given here with the fields the
  parser fills. Modelled from the spec: an operator carries its text, a precedence level
  and a right-associative flag; a type tag resolves to a descriptor with a printable name.
\<close>

type_synonym typeDesc = "byte list"

record unaryOp =
  unOp :: "byte list"

record binaryOp =
  binOp :: "byte list"
  precedence :: int
  rightAssoc :: bool

datatype expression =
    BinaryExpr expression expression binaryOp
  | UnaryExpr unaryOp expression
  | CallExpr expression "expression list"
  | VarRef "byte list"
  | ListExpr "expression list"
  | IntegerLiteral int
  | BytesLiteral "byte list"
  | BooleanLiteral bool

record Param =
  paramName :: "byte list"
  paramType :: typeDesc

datatype statement =
    IfStatement expression "statement list" "statement list"
  | DefineStatement Param "expression option"
  | AssignStatement Param expression
  | VerifyStatement expression
  | LockStatement expression expression expression
  | UnlockStatement expression expression

record Clause =
  clauseName :: "byte list"
  clauseParams :: "Param list"
  statements :: "statement list"

record ValueInfo =
  Amount :: "byte list"
  Asset :: "byte list"

record Contract =
  contractName :: "byte list"
  contractParams :: "Param list"
  contractClauses :: "Clause list"
  contractValue :: ValueInfo

text \<open>
  The package-level tables \<^verbatim>\<open>types\<close>, \<^verbatim>\<open>unaryOps\<close> and \<^verbatim>\<open>binaryOps\<close> are declared outside
  \<^verbatim>\<open>parse.go\<close>: the parser takes them as a parameter.
\<close>

record tables =
  typesTable :: "byte list \<rightharpoonup> typeDesc"
  unaryOps :: "unaryOp list"
  binaryOps :: "binaryOp list"

section \<open>Operators and literals\<close>

fun unaryLoop :: "unaryOp list \<Rightarrow> byte list \<Rightarrow> nat \<Rightarrow> (unaryOp \<times> nat) option" where
  "unaryLoop [] buf offset = None"
| "unaryLoop (uop # ops) buf offset =
     (case scanTok buf offset (unOp uop) of
        Some newOffset \<Rightarrow> Some (uop, newOffset)
      | None \<Rightarrow> unaryLoop ops buf offset)"

definition scanUnaryOp :: "tables \<Rightarrow> byte list \<Rightarrow> nat \<Rightarrow> (unaryOp \<times> nat) option" where
  "scanUnaryOp T buf offset =
     (case scanIntLiteral buf offset of
        Some r \<Rightarrow> None
      | None \<Rightarrow> unaryLoop (unaryOps T) buf offset)"

fun binaryLoop ::
  "binaryOp list \<Rightarrow> byte list \<Rightarrow> nat \<Rightarrow> (binaryOp \<times> nat) option \<Rightarrow> (binaryOp \<times> nat) option" where
  "binaryLoop [] buf offset found = found"
| "binaryLoop (bop # ops) buf offset found =
     (case scanTok buf offset (binOp bop) of
        None \<Rightarrow> binaryLoop ops buf offset found
      | Some offset2 \<Rightarrow>
          (case found of
             None \<Rightarrow> binaryLoop ops buf offset (Some (bop, offset2))
           | Some (f, newOffset) \<Rightarrow>
               if length (binOp bop) > length (binOp f)
               then binaryLoop ops buf offset (Some (bop, offset2))
               else binaryLoop ops buf offset found))"

definition scanBinaryOp :: "tables \<Rightarrow> byte list \<Rightarrow> nat \<Rightarrow> (binaryOp \<times> nat) option" where
  "scanBinaryOp T buf offset0 =
     binaryLoop (binaryOps T) buf (skipWsAndComments buf offset0) None"

definition scanLiteralExpr :: "byte list \<Rightarrow> nat \<Rightarrow> abort + (expression \<times> nat) option" where
  "scanLiteralExpr buf offset0 =
     (let offset = skipWsAndComments buf offset0
      in case scanIntLiteral buf offset of
           Some (n, newOffset) \<Rightarrow> Inr (Some (IntegerLiteral n, newOffset))
         | None \<Rightarrow>
             (case scanStrLiteral buf offset of
                Inl e \<Rightarrow> Inl e
              | Inr (Some (s, newOffset)) \<Rightarrow> Inr (Some (BytesLiteral s, newOffset))
              | Inr None \<Rightarrow>
                  (case scanBytesLiteral buf offset of
                     Inl e \<Rightarrow> Inl e
                   | Inr (Some (bs, newOffset)) \<Rightarrow> Inr (Some (BytesLiteral bs, newOffset))
                   | Inr None \<Rightarrow>
                       (case scanBoolLiteral buf offset of
                          Some (b, newOffset) \<Rightarrow> Inr (Some (BooleanLiteral b, newOffset))
                        | None \<Rightarrow> Inr None))))"

section \<open>Peek and consume\<close>

text \<open>
  The \<^verbatim>\<open>parser\<close> struct is the buffer, never changed, and the position \<^verbatim>\<open>p.pos\<close>: a
  function on \<^verbatim>\<open>*parser\<close> takes the buffer and the position and returns the new position
  with its value, or the panic that stopped it.
\<close>

definition errorf :: "byte list \<Rightarrow> int \<Rightarrow> byte list \<Rightarrow> arg list \<Rightarrow> abort + 'a" where
  "errorf buf pos format args =
     Inl (ParserPanic \<lparr>errBuf = buf, errOffset = pos, errFormat = format, errArgs = args\<rparr>)"

definition peekKeyword :: "byte list \<Rightarrow> nat \<Rightarrow> byte list" where
  "peekKeyword buf pos = (case scanIdentifier buf pos of None \<Rightarrow> [] | Some (name, i) \<Rightarrow> name)"

definition peekTok :: "byte list \<Rightarrow> nat \<Rightarrow> byte list \<Rightarrow> bool" where
  "peekTok buf pos token = (case scanTok buf pos token of None \<Rightarrow> False | Some i \<Rightarrow> True)"


definition consumeKeyword :: "byte list \<Rightarrow> nat \<Rightarrow> byte list \<Rightarrow> abort + nat" where
  "consumeKeyword buf pos keyword =
     (case scanKeyword buf pos keyword of
        None \<Rightarrow> errorf buf (int pos) ''expected keyword %s'' [StrArg keyword]
      | Some newPos \<Rightarrow> Inr newPos)"

definition consumeIdentifier :: "byte list \<Rightarrow> nat \<Rightarrow> abort + (byte list \<times> nat)" where
  "consumeIdentifier buf pos =
     (case scanIdentifier buf pos of
        None \<Rightarrow> errorf buf (int pos) ''expected identifier'' []
      | Some (name, newPos) \<Rightarrow> Inr (name, newPos))"

definition consumeTok :: "byte list \<Rightarrow> nat \<Rightarrow> byte list \<Rightarrow> abort + nat" where
  "consumeTok buf pos token =
     (case scanTok buf pos token of
        None \<Rightarrow> errorf buf (int pos) ''expected %s token'' [StrArg token]
      | Some newPos \<Rightarrow> Inr newPos)"

section \<open>Expressions\<close>

text \<open>
  The expression parser is mutually recursive and loops; each function takes a recursion
  budget, one unit per call or loop iteration, and stops with \<^term>\<open>OutOfFuel\<close> at zero.
  \<^verbatim>\<open>parseExprCont\<close> returns an expression and a position, \<^verbatim>\<open>nil, -1\<close> being \<^term>\<open>None\<close>
  (it has then set \<^verbatim>\<open>p.pos\<close> to -1, the offset of the error \<^verbatim>\<open>parseExpr\<close> raises for it);
  its inner loop is \<open>parseExprContRhs\<close>. The loops of \<^verbatim>\<open>parseExpr4\<close> (list elements, up to
  \<open>]\<close>) and of \<^verbatim>\<open>parseArgs\<close> (arguments, up to \<open>)\<close>) are the same code with another
  closing token: \<open>parseExprList\<close>.
\<close>

function (sequential) parseExpr :: "tables \<Rightarrow> nat \<Rightarrow> byte list \<Rightarrow> nat \<Rightarrow> abort + (expression \<times> nat)"
  and parseUnaryExpr :: "tables \<Rightarrow> nat \<Rightarrow> byte list \<Rightarrow> nat \<Rightarrow> abort + (expression \<times> nat)"
  and parseExprCont ::
    "tables \<Rightarrow> nat \<Rightarrow> byte list \<Rightarrow> nat \<Rightarrow> expression \<Rightarrow> int \<Rightarrow> abort + (expression \<times> nat) option"
  and parseExprContRhs ::
    "tables \<Rightarrow> nat \<Rightarrow> byte list \<Rightarrow> nat \<Rightarrow> expression \<Rightarrow> binaryOp \<Rightarrow> abort + (expression \<times> nat) option"
  and parseExpr2 :: "tables \<Rightarrow> nat \<Rightarrow> byte list \<Rightarrow> nat \<Rightarrow> abort + (expression \<times> nat)"
  and parseExpr3 :: "tables \<Rightarrow> nat \<Rightarrow> byte list \<Rightarrow> nat \<Rightarrow> abort + (expression \<times> nat)"
  and parseExpr4 :: "tables \<Rightarrow> nat \<Rightarrow> byte list \<Rightarrow> nat \<Rightarrow> abort + (expression \<times> nat)"
  and parseExprList ::
    "tables \<Rightarrow> nat \<Rightarrow> byte list \<Rightarrow> nat \<Rightarrow> byte list \<Rightarrow> bool \<Rightarrow> expression list
      \<Rightarrow> abort + (expression list \<times> nat)"
  and parseArgs :: "tables \<Rightarrow> nat \<Rightarrow> byte list \<Rightarrow> nat \<Rightarrow> abort + (expression list \<times> nat)"
where
  "parseExpr T 0 buf pos = Inl OutOfFuel"
| "parseExpr T (Suc n) buf pos =
     (case parseUnaryExpr T n buf pos of
        Inl e \<Rightarrow> Inl e
      | Inr (expr, pos1) \<Rightarrow>
          (case parseExprCont T n buf pos1 expr 0 of
             Inl e \<Rightarrow> Inl e
           | Inr None \<Rightarrow> errorf buf (- 1) ''expected expression'' []
           | Inr (Some (expr2, pos2)) \<Rightarrow> Inr (expr2, pos2)))"
| "parseUnaryExpr T 0 buf pos = Inl OutOfFuel"
| "parseUnaryExpr T (Suc n) buf pos =
     (case scanUnaryOp T buf pos of
        None \<Rightarrow> parseExpr2 T n buf pos
      | Some (uop, pos1) \<Rightarrow>
          (case parseUnaryExpr T n buf pos1 of
             Inl e \<Rightarrow> Inl e
           | Inr (expr, pos2) \<Rightarrow> Inr (UnaryExpr uop expr, pos2)))"
| "parseExprCont T 0 buf pos lhs minPrecedence = Inl OutOfFuel"
| "parseExprCont T (Suc n) buf pos lhs minPrecedence =
     (case scanBinaryOp T buf pos of
        None \<Rightarrow> Inr (Some (lhs, pos))
      | Some (bop, pos1) \<Rightarrow>
          if precedence bop < minPrecedence then Inr (Some (lhs, pos))
          else
            (case parseUnaryExpr T n buf pos1 of
               Inl e \<Rightarrow> Inl e
             | Inr (rhs, pos2) \<Rightarrow>
                 (case parseExprContRhs T n buf pos2 rhs bop of
                    Inl e \<Rightarrow> Inl e
                  | Inr None \<Rightarrow> Inr None
                  | Inr (Some (rhs2, pos3)) \<Rightarrow>
                      parseExprCont T n buf pos3 (BinaryExpr lhs rhs2 bop) minPrecedence)))"
| "parseExprContRhs T 0 buf pos rhs bop = Inl OutOfFuel"
| "parseExprContRhs T (Suc n) buf pos rhs bop =
     (case scanBinaryOp T buf pos of
        None \<Rightarrow> Inr (Some (rhs, pos))
      | Some (op2, pos2) \<Rightarrow>
          if precedence op2 \<le> precedence bop then Inr (Some (rhs, pos))
          else
            (case parseExprCont T n buf pos rhs (precedence op2) of
               Inl e \<Rightarrow> Inl e
             | Inr None \<Rightarrow> Inr None
             | Inr (Some (rhs2, pos3)) \<Rightarrow> parseExprContRhs T n buf pos3 rhs2 bop))"
| "parseExpr2 T 0 buf pos = Inl OutOfFuel"
| "parseExpr2 T (Suc n) buf pos =
     (case scanLiteralExpr buf pos of
        Inl e \<Rightarrow> Inl e
      | Inr (Some (expr, pos1)) \<Rightarrow> Inr (expr, pos1)
      | Inr None \<Rightarrow> parseExpr3 T n buf pos)"
| "parseExpr3 T 0 buf pos = Inl OutOfFuel"
| "parseExpr3 T (Suc n) buf pos =
     (case parseExpr4 T n buf pos of
        Inl e \<Rightarrow> Inl e
      | Inr (e, pos1) \<Rightarrow>
          if peekTok buf pos1 ''(''
          then (case parseArgs T n buf pos1 of
                  Inl e \<Rightarrow> Inl e
                | Inr (args, pos2) \<Rightarrow> Inr (CallExpr e args, pos2))
          else Inr (e, pos1))"
| "parseExpr4 T 0 buf pos = Inl OutOfFuel"
| "parseExpr4 T (Suc n) buf pos =
     (if peekTok buf pos ''('' then
        (case consumeTok buf pos ''('' of
           Inl e \<Rightarrow> Inl e
         | Inr pos1 \<Rightarrow>
             (case parseExpr T n buf pos1 of
                Inl e \<Rightarrow> Inl e
              | Inr (e, pos2) \<Rightarrow>
                  (case consumeTok buf pos2 '')'' of
                     Inl e \<Rightarrow> Inl e
                   | Inr pos3 \<Rightarrow> Inr (e, pos3))))
      else if peekTok buf pos ''['' then
        (case consumeTok buf pos ''['' of
           Inl e \<Rightarrow> Inl e
         | Inr pos1 \<Rightarrow>
             (case parseExprList T n buf pos1 '']'' True [] of
                Inl e \<Rightarrow> Inl e
              | Inr (elts, pos2) \<Rightarrow>
                  (case consumeTok buf pos2 '']'' of
                     Inl e \<Rightarrow> Inl e
                   | Inr pos3 \<Rightarrow> Inr (ListExpr elts, pos3))))
      else
        (case consumeIdentifier buf pos of
           Inl e \<Rightarrow> Inl e
         | Inr (name, pos1) \<Rightarrow> Inr (VarRef name, pos1)))"
| "parseExprList T 0 buf pos closer frst elts = Inl OutOfFuel"
| "parseExprList T (Suc n) buf pos closer frst elts =
     (if peekTok buf pos closer then Inr (elts, pos)
      else
        (case (if frst then Inr pos else consumeTok buf pos '','') of
           Inl e \<Rightarrow> Inl e
         | Inr pos1 \<Rightarrow>
             (case parseExpr T n buf pos1 of
                Inl e \<Rightarrow> Inl e
              | Inr (e, pos2) \<Rightarrow> parseExprList T n buf pos2 closer False (elts @ [e]))))"
| "parseArgs T 0 buf pos = Inl OutOfFuel"
| "parseArgs T (Suc n) buf pos =
     (case consumeTok buf pos ''('' of
        Inl e \<Rightarrow> Inl e
      | Inr pos1 \<Rightarrow>
          (case parseExprList T n buf pos1 '')'' True [] of
             Inl e \<Rightarrow> Inl e
           | Inr (exprs, pos2) \<Rightarrow>
               (case consumeTok buf pos2 '')'' of
                  Inl e \<Rightarrow> Inl e
                | Inr pos3 \<Rightarrow> Inr (exprs, pos3))))"

  by pat_completeness auto
termination
  by (relation "measure (case_sum (case_sum (case_sum (\<lambda>x. fst (snd x)) (\<lambda>x. fst (snd x))) (case_sum (\<lambda>x. fst (snd x)) (\<lambda>x. fst (snd x)))) (case_sum (case_sum (\<lambda>x. fst (snd x)) (\<lambda>x. fst (snd x))) (case_sum (\<lambda>x. fst (snd x)) (case_sum (\<lambda>x. fst (snd x)) (\<lambda>x. fst (snd x))))))") simp_all

text \<open>The equations are unfolded by hand in the proofs below.\<close>

declare parseExpr.simps [simp del] parseUnaryExpr.simps [simp del] parseExprCont.simps [simp del]
  parseExprContRhs.simps [simp del] parseExpr2.simps [simp del] parseExpr3.simps [simp del]
  parseExpr4.simps [simp del] parseExprList.simps [simp del] parseArgs.simps [simp del]

section \<open>Statements\<close>

definition parseDefineStmt :: "tables \<Rightarrow> nat \<Rightarrow> byte list \<Rightarrow> nat \<Rightarrow> abort + (statement \<times> nat)" where
  "parseDefineStmt T n buf pos =
     (case consumeKeyword buf pos ''define'' of
        Inl e \<Rightarrow> Inl e
      | Inr pos1 \<Rightarrow>
     (case consumeIdentifier buf pos1 of
        Inl e \<Rightarrow> Inl e
      | Inr (name, pos2) \<Rightarrow>
     (case consumeTok buf pos2 '':'' of
        Inl e \<Rightarrow> Inl e
      | Inr pos3 \<Rightarrow>
     (case consumeIdentifier buf pos3 of
        Inl e \<Rightarrow> Inl e
      | Inr (variableType, pos4) \<Rightarrow>
     (case typesTable T variableType of
        None \<Rightarrow> errorf buf (int pos4) ''unknown type %s'' [StrArg variableType]
      | Some tdesc \<Rightarrow>
          if peekTok buf pos4 ''='' then
            (case consumeTok buf pos4 ''='' of
               Inl e \<Rightarrow> Inl e
             | Inr pos5 \<Rightarrow>
                 (case parseExpr T n buf pos5 of
                    Inl e \<Rightarrow> Inl e
                  | Inr (expr, pos6) \<Rightarrow>
                      Inr (DefineStatement \<lparr>paramName = name, paramType = tdesc\<rparr> (Some expr), pos6)))
          else Inr (DefineStatement \<lparr>paramName = name, paramType = tdesc\<rparr> None, pos4))))))"

text \<open>
  \<^verbatim>\<open>&Param{Name: varName}\<close> leaves the type at its zero value, the empty descriptor.
\<close>

definition parseAssignStmt :: "tables \<Rightarrow> nat \<Rightarrow> byte list \<Rightarrow> nat \<Rightarrow> abort + (statement \<times> nat)" where
  "parseAssignStmt T n buf pos =
     (case consumeKeyword buf pos ''assign'' of
        Inl e \<Rightarrow> Inl e
      | Inr pos1 \<Rightarrow>
     (case consumeIdentifier buf pos1 of
        Inl e \<Rightarrow> Inl e
      | Inr (varName, pos2) \<Rightarrow>
     (case consumeTok buf pos2 ''='' of
        Inl e \<Rightarrow> Inl e
      | Inr pos3 \<Rightarrow>
     (case parseExpr T n buf pos3 of
        Inl e \<Rightarrow> Inl e
      | Inr (expr, pos4) \<Rightarrow>
          Inr (AssignStatement \<lparr>paramName = varName, paramType = []\<rparr> expr, pos4)))))"

definition parseVerifyStmt :: "tables \<Rightarrow> nat \<Rightarrow> byte list \<Rightarrow> nat \<Rightarrow> abort + (statement \<times> nat)" where
  "parseVerifyStmt T n buf pos =
     (case consumeKeyword buf pos ''verify'' of
        Inl e \<Rightarrow> Inl e
      | Inr pos1 \<Rightarrow>
     (case parseExpr T n buf pos1 of
        Inl e \<Rightarrow> Inl e
      | Inr (expr, pos2) \<Rightarrow> Inr (VerifyStatement expr, pos2)))"

definition parseLockStmt :: "tables \<Rightarrow> nat \<Rightarrow> byte list \<Rightarrow> nat \<Rightarrow> abort + (statement \<times> nat)" where
  "parseLockStmt T n buf pos =
     (case consumeKeyword buf pos ''lock'' of
        Inl e \<Rightarrow> Inl e
      | Inr pos1 \<Rightarrow>
     (case parseExpr T n buf pos1 of
        Inl e \<Rightarrow> Inl e
      | Inr (lockedAmount, pos2) \<Rightarrow>
     (case consumeKeyword buf pos2 ''of'' of
        Inl e \<Rightarrow> Inl e
      | Inr pos3 \<Rightarrow>
     (case parseExpr T n buf pos3 of
        Inl e \<Rightarrow> Inl e
      | Inr (lockedAsset, pos4) \<Rightarrow>
     (case consumeKeyword buf pos4 ''with'' of
        Inl e \<Rightarrow> Inl e
      | Inr pos5 \<Rightarrow>
     (case parseExpr T n buf pos5 of
        Inl e \<Rightarrow> Inl e
      | Inr (program, pos6) \<Rightarrow>
          Inr (LockStatement lockedAmount lockedAsset program, pos6)))))))"

definition parseUnlockStmt :: "tables \<Rightarrow> nat \<Rightarrow> byte list \<Rightarrow> nat \<Rightarrow> abort + (statement \<times> nat)" where
  "parseUnlockStmt T n buf pos =
     (case consumeKeyword buf pos ''unlock'' of
        Inl e \<Rightarrow> Inl e
      | Inr pos1 \<Rightarrow>
     (case parseExpr T n buf pos1 of
        Inl e \<Rightarrow> Inl e
      | Inr (unlockedAmount, pos2) \<Rightarrow>
     (case consumeKeyword buf pos2 ''of'' of
        Inl e \<Rightarrow> Inl e
      | Inr pos3 \<Rightarrow>
     (case parseExpr T n buf pos3 of
        Inl e \<Rightarrow> Inl e
      | Inr (unlockedAsset, pos4) \<Rightarrow>
          Inr (UnlockStatement unlockedAmount unlockedAsset, pos4)))))"

text \<open>
  \<^verbatim>\<open>parseStatements\<close> is a loop appending to \<^verbatim>\<open>statements\<close>, here the last argument. An
  \<^verbatim>\<open>if\<close> without \<^verbatim>\<open>else\<close> leaves \<^verbatim>\<open>falseBody\<close> nil, the empty list.
\<close>

function (sequential) parseStatements ::
    "tables \<Rightarrow> nat \<Rightarrow> byte list \<Rightarrow> nat \<Rightarrow> statement list \<Rightarrow> abort + (statement list \<times> nat)"
  and parseStatement :: "tables \<Rightarrow> nat \<Rightarrow> byte list \<Rightarrow> nat \<Rightarrow> abort + (statement \<times> nat)"
  and parseIfStmt :: "tables \<Rightarrow> nat \<Rightarrow> byte list \<Rightarrow> nat \<Rightarrow> abort + (statement \<times> nat)"
where
  "parseStatements T 0 buf pos stmts = Inl OutOfFuel"
| "parseStatements T (Suc n) buf pos stmts =
     (if peekTok buf pos ''}'' then Inr (stmts, pos)
      else
        (case parseStatement T n buf pos of
           Inl e \<Rightarrow> Inl e
         | Inr (s, pos1) \<Rightarrow> parseStatements T n buf pos1 (stmts @ [s])))"
| "parseStatement T 0 buf pos = Inl OutOfFuel"
| "parseStatement T (Suc n) buf pos =
     (if peekKeyword buf pos = ''if'' then parseIfStmt T n buf pos
      else if peekKeyword buf pos = ''define'' then parseDefineStmt T n buf pos
      else if peekKeyword buf pos = ''assign'' then parseAssignStmt T n buf pos
      else if peekKeyword buf pos = ''verify'' then parseVerifyStmt T n buf pos
      else if peekKeyword buf pos = ''lock'' then parseLockStmt T n buf pos
      else if peekKeyword buf pos = ''unlock'' then parseUnlockStmt T n buf pos
      else Inl (ParserPanic (parseErr buf pos (''unknown keyword '' @ [CHR 0x22] @ ''%s'' @ [CHR 0x22])
                 [StrArg (peekKeyword buf pos)])))"
| "parseIfStmt T 0 buf pos = Inl OutOfFuel"
| "parseIfStmt T (Suc n) buf pos =
     (case consumeKeyword buf pos ''if'' of
        Inl e \<Rightarrow> Inl e
      | Inr pos1 \<Rightarrow>
     (case parseExpr T n buf pos1 of
        Inl e \<Rightarrow> Inl e
      | Inr (condition, pos2) \<Rightarrow>
     (case consumeTok buf pos2 ''{'' of
        Inl e \<Rightarrow> Inl e
      | Inr pos3 \<Rightarrow>
     (case parseStatements T n buf pos3 [] of
        Inl e \<Rightarrow> Inl e
      | Inr (trueBody, pos4) \<Rightarrow>
     (case consumeTok buf pos4 ''}'' of
        Inl e \<Rightarrow> Inl e
      | Inr pos5 \<Rightarrow>
          if peekKeyword buf pos5 = ''else'' then
            (case consumeKeyword buf pos5 ''else'' of
               Inl e \<Rightarrow> Inl e
             | Inr pos6 \<Rightarrow>
            (case consumeTok buf pos6 ''{'' of
               Inl e \<Rightarrow> Inl e
             | Inr pos7 \<Rightarrow>
            (case parseStatements T n buf pos7 [] of
               Inl e \<Rightarrow> Inl e
             | Inr (falseBody, pos8) \<Rightarrow>
            (case consumeTok buf pos8 ''}'' of
               Inl e \<Rightarrow> Inl e
             | Inr pos9 \<Rightarrow> Inr (IfStatement condition trueBody falseBody, pos9)))))
          else Inr (IfStatement condition trueBody [], pos5))))))"
  by pat_completeness auto
termination
  by (relation "measure (case_sum (\<lambda>x. fst (snd x)) (case_sum (\<lambda>x. fst (snd x)) (\<lambda>x. fst (snd x))))") simp_all


declare parseStatements.simps [simp del] parseStatement.simps [simp del] parseIfStmt.simps [simp del]

section \<open>Parameters, clauses and contracts\<close>

text \<open>The loop of \<^verbatim>\<open>parseParamsType\<close> that reads the names after the first one.\<close>

fun paramNames :: "nat \<Rightarrow> byte list \<Rightarrow> nat \<Rightarrow> Param list \<Rightarrow> abort + (Param list \<times> nat)" where
  "paramNames 0 buf pos params = Inl OutOfFuel"
| "paramNames (Suc n) buf pos params =
     (if peekTok buf pos '','' then
        (case consumeTok buf pos '','' of
           Inl e \<Rightarrow> Inl e
         | Inr pos1 \<Rightarrow>
             (case consumeIdentifier buf pos1 of
                Inl e \<Rightarrow> Inl e
              | Inr (name, pos2) \<Rightarrow>
                  paramNames n buf pos2 (params @ [\<lparr>paramName = name, paramType = []\<rparr>])))
      else Inr (params, pos))"

text \<open>Its last loop, which gives every parameter the type, or stops at an unknown one.\<close>

fun setParamTypes ::
  "tables \<Rightarrow> byte list \<Rightarrow> nat \<Rightarrow> byte list \<Rightarrow> Param list \<Rightarrow> abort + Param list" where
  "setParamTypes T buf pos typ [] = Inr []"
| "setParamTypes T buf pos typ (parm # params) =
     (case typesTable T typ of
        Some tdesc \<Rightarrow>
          (case setParamTypes T buf pos typ params of
             Inl e \<Rightarrow> Inl e
           | Inr ps \<Rightarrow> Inr (parm\<lparr>paramType := tdesc\<rparr> # ps))
      | None \<Rightarrow> errorf buf (int pos) ''unknown type %s'' [StrArg typ])"

definition parseParamsType :: "tables \<Rightarrow> nat \<Rightarrow> byte list \<Rightarrow> nat \<Rightarrow> abort + (Param list \<times> nat)" where
  "parseParamsType T n buf pos =
     (case consumeIdentifier buf pos of
        Inl e \<Rightarrow> Inl e
      | Inr (firstName, pos1) \<Rightarrow>
     (case paramNames n buf pos1 [\<lparr>paramName = firstName, paramType = []\<rparr>] of
        Inl e \<Rightarrow> Inl e
      | Inr (params, pos2) \<Rightarrow>
     (case consumeTok buf pos2 '':'' of
        Inl e \<Rightarrow> Inl e
      | Inr pos3 \<Rightarrow>
     (case consumeIdentifier buf pos3 of
        Inl e \<Rightarrow> Inl e
      | Inr (typ, pos4) \<Rightarrow>
     (case setParamTypes T buf pos4 typ params of
        Inl e \<Rightarrow> Inl e
      | Inr params2 \<Rightarrow> Inr (params2, pos4))))))"

fun paramsLoop ::
  "tables \<Rightarrow> nat \<Rightarrow> byte list \<Rightarrow> nat \<Rightarrow> bool \<Rightarrow> Param list \<Rightarrow> abort + (Param list \<times> nat)" where
  "paramsLoop T 0 buf pos frst params = Inl OutOfFuel"
| "paramsLoop T (Suc n) buf pos frst params =
     (if peekTok buf pos '')'' then Inr (params, pos)
      else
        (case (if frst then Inr pos else consumeTok buf pos '','') of
           Inl e \<Rightarrow> Inl e
         | Inr pos1 \<Rightarrow>
             (case parseParamsType T n buf pos1 of
                Inl e \<Rightarrow> Inl e
              | Inr (pt, pos2) \<Rightarrow> paramsLoop T n buf pos2 False (params @ pt))))"

definition parseParams :: "tables \<Rightarrow> nat \<Rightarrow> byte list \<Rightarrow> nat \<Rightarrow> abort + (Param list \<times> nat)" where
  "parseParams T n buf pos =
     (case consumeTok buf pos ''('' of
        Inl e \<Rightarrow> Inl e
      | Inr pos1 \<Rightarrow>
     (case paramsLoop T n buf pos1 True [] of
        Inl e \<Rightarrow> Inl e
      | Inr (params, pos2) \<Rightarrow>
     (case consumeTok buf pos2 '')'' of
        Inl e \<Rightarrow> Inl e
      | Inr pos3 \<Rightarrow> Inr (params, pos3))))"

definition parseClause :: "tables \<Rightarrow> nat \<Rightarrow> byte list \<Rightarrow> nat \<Rightarrow> abort + (Clause \<times> nat)" where
  "parseClause T n buf pos =
     (case consumeKeyword buf pos ''clause'' of
        Inl e \<Rightarrow> Inl e
      | Inr pos1 \<Rightarrow>
     (case consumeIdentifier buf pos1 of
        Inl e \<Rightarrow> Inl e
      | Inr (name, pos2) \<Rightarrow>
     (case parseParams T n buf pos2 of
        Inl e \<Rightarrow> Inl e
      | Inr (params, pos3) \<Rightarrow>
     (case consumeTok buf pos3 ''{'' of
        Inl e \<Rightarrow> Inl e
      | Inr pos4 \<Rightarrow>
     (case parseStatements T n buf pos4 [] of
        Inl e \<Rightarrow> Inl e
      | Inr (stmts, pos5) \<Rightarrow>
     (case consumeTok buf pos5 ''}'' of
        Inl e \<Rightarrow> Inl e
      | Inr pos6 \<Rightarrow>
          Inr (\<lparr>clauseName = name, clauseParams = params, statements = stmts\<rparr>, pos6)))))))"

text \<open>\<^verbatim>\<open>parseClauses\<close> is a loop appending to \<^verbatim>\<open>clauses\<close>, here the last argument.\<close>

fun parseClauses ::
  "tables \<Rightarrow> nat \<Rightarrow> byte list \<Rightarrow> nat \<Rightarrow> Clause list \<Rightarrow> abort + (Clause list \<times> nat)" where
  "parseClauses T 0 buf pos clauses = Inl OutOfFuel"
| "parseClauses T (Suc n) buf pos clauses =
     (if peekTok buf pos ''}'' then Inr (clauses, pos)
      else
        (case parseClause T n buf pos of
           Inl e \<Rightarrow> Inl e
         | Inr (c, pos1) \<Rightarrow> parseClauses T n buf pos1 (clauses @ [c])))"

definition parseContract :: "tables \<Rightarrow> nat \<Rightarrow> byte list \<Rightarrow> nat \<Rightarrow> abort + (Contract \<times> nat)" where
  "parseContract T n buf pos =
     (case consumeKeyword buf pos ''contract'' of
        Inl e \<Rightarrow> Inl e
      | Inr pos1 \<Rightarrow>
     (case consumeIdentifier buf pos1 of
        Inl e \<Rightarrow> Inl e
      | Inr (name, pos2) \<Rightarrow>
     (case parseParams T n buf pos2 of
        Inl e \<Rightarrow> Inl e
      | Inr (params, pos3) \<Rightarrow>
     (case consumeKeyword buf pos3 ''locks'' of
        Inl e \<Rightarrow> Inl e
      | Inr pos4 \<Rightarrow>
     (case consumeIdentifier buf pos4 of
        Inl e \<Rightarrow> Inl e
      | Inr (amount, pos5) \<Rightarrow>
     (case consumeKeyword buf pos5 ''of'' of
        Inl e \<Rightarrow> Inl e
      | Inr pos6 \<Rightarrow>
     (case consumeIdentifier buf pos6 of
        Inl e \<Rightarrow> Inl e
      | Inr (asset, pos7) \<Rightarrow>
     (case consumeTok buf pos7 ''{'' of
        Inl e \<Rightarrow> Inl e
      | Inr pos8 \<Rightarrow>
     (case parseClauses T n buf pos8 [] of
        Inl e \<Rightarrow> Inl e
      | Inr (clauses, pos9) \<Rightarrow>
     (case consumeTok buf pos9 ''}'' of
        Inl e \<Rightarrow> Inl e
      | Inr pos10 \<Rightarrow>
          Inr (\<lparr>contractName = name, contractParams = params, contractClauses = clauses,
                contractValue = \<lparr>Amount = amount, Asset = asset\<rparr>\<rparr>, pos10)))))))))))"

text \<open>
  \<^verbatim>\<open>parseImportDirectives\<close> is defined outside \<^verbatim>\<open>parse.go\<close>: \<^verbatim>\<open>parseContracts\<close> takes it as a
  parameter, a function of the buffer and the position like the others.
\<close>

type_synonym importParser = "byte list \<Rightarrow> nat \<Rightarrow> abort + (Contract list \<times> nat)"

fun contractsLoop ::
  "tables \<Rightarrow> nat \<Rightarrow> byte list \<Rightarrow> nat \<Rightarrow> Contract list \<Rightarrow> abort + (Contract list \<times> nat)" where
  "contractsLoop T 0 buf pos result = Inl OutOfFuel"
| "contractsLoop T (Suc n) buf pos result =
     (if peekKeyword buf pos = ''contract'' then
        (case parseContract T n buf pos of
           Inl e \<Rightarrow> Inl e
         | Inr (contract, pos1) \<Rightarrow> contractsLoop T n buf pos1 (result @ [contract]))
      else Inr (result, pos))"

definition parseContracts ::
  "importParser \<Rightarrow> tables \<Rightarrow> nat \<Rightarrow> byte list \<Rightarrow> nat \<Rightarrow> abort + (Contract list \<times> nat)" where
  "parseContracts parseImportDirectives T n buf pos =
     (case parseImportDirectives buf pos of
        Inl e \<Rightarrow> Inl e
      | Inr (contracts, pos1) \<Rightarrow>
          (case scanKeyword buf pos1 ''contract'' of
             None \<Rightarrow> errorf buf (int pos1) ''expected contract'' []
           | Some pos2 \<Rightarrow> contractsLoop T n buf pos1 contracts))"

text \<open>
  \<^verbatim>\<open>parse\<close> recovers a panic whose value is a \<^verbatim>\<open>parserErr\<close> and returns it as \<^verbatim>\<open>err\<close>, with
  \<^verbatim>\<open>contracts\<close> still nil; it panics again with any other value.
\<close>

datatype outcome = Returns "Contract list" "parserErr option" | Panics "byte list" | NoFuel

definition parse :: "importParser \<Rightarrow> tables \<Rightarrow> nat \<Rightarrow> byte list \<Rightarrow> outcome" where
  "parse parseImportDirectives T n buf =
     (case parseContracts parseImportDirectives T n buf 0 of
        Inr (contracts, pos) \<Rightarrow> Returns contracts None
      | Inl (ParserPanic e) \<Rightarrow> Returns [] (Some e)
      | Inl (OtherPanic val) \<Rightarrow> Panics val
      | Inl OutOfFuel \<Rightarrow> NoFuel)"

section \<open>The message of a parser error\<close>

text \<open>
  \<^verbatim>\<open>fmt.Sprintf\<close> of the Go library, for the verbs the parser uses: \<open>%d\<close> with an integer
  and \<open>%s\<close> with a string, one argument per verb. \<^term>\<open>None\<close> is every other case.
\<close>

function itoa :: "nat \<Rightarrow> byte list" where
  "itoa k = (if k < 10 then [char_of (48 + k)] else itoa (k div 10) @ [char_of (48 + k mod 10)])"
  by pat_completeness auto
termination
  by (relation "measure id") auto

declare itoa.simps [simp del]

fun Sprintf :: "byte list \<Rightarrow> arg list \<Rightarrow> byte list option" where
  "Sprintf [] args = (if args = [] then Some [] else None)"
| "Sprintf (c # format) args =
     (if c = CHR ''%'' then
        (case format of
           [] \<Rightarrow> None
         | v # format2 \<Rightarrow>
             if v = CHR ''d'' then
               (case args of
                  IntArg k # args2 \<Rightarrow> map_option ((@) (itoa k)) (Sprintf format2 args2)
                | _ \<Rightarrow> None)
             else if v = CHR ''s'' then
               (case args of
                  StrArg str # args2 \<Rightarrow> map_option ((@) str) (Sprintf format2 args2)
                | _ \<Rightarrow> None)
             else None)
      else map_option ((#) c) (Sprintf format args))"

text \<open>
  The loop of \<^verbatim>\<open>Error()\<close> reads \<^verbatim>\<open>p.buf[i]\<close> for every \<open>i\<close> below the offset; past the end
  of the buffer that is a run-time panic, \<^term>\<open>None\<close> here.
\<close>

function errLoop :: "byte list \<Rightarrow> int \<Rightarrow> nat \<Rightarrow> nat \<Rightarrow> nat \<Rightarrow> (nat \<times> nat) option" where
  "errLoop buf offset i line col =
     (if int i < offset then
        (if i < length buf then
           (if buf ! i = CHR 0x0A then errLoop buf offset (i + 1) (line + 1) 0
            else errLoop buf offset (i + 1) line (col + 1))
         else None)
      else Some (line, col))"
  by pat_completeness auto
termination
  by (relation "measure (\<lambda>(buf, offset, i, line, col). length buf - i)") auto

declare errLoop.simps [simp del]

definition Error :: "parserErr \<Rightarrow> byte list option" where
  "Error p =
     (case errLoop (errBuf p) (errOffset p) 0 1 0 of
        None \<Rightarrow> None
      | Some (line, col) \<Rightarrow>
          Sprintf (''line %d, col %d: '' @ errFormat p) (IntArg line # IntArg col # errArgs p))"


section \<open>The tables of the specification\<close>

text \<open>
  Modelled from the spec: the tables \<^verbatim>\<open>types\<close>, \<^verbatim>\<open>unaryOps\<close> and \<^verbatim>\<open>binaryOps\<close> are missing
  from the source files at hand. The spec gives the type tags Asset, Amount, Integer,
  Boolean, PublicKey, Signature, String, Hash, Program and Time, the unary operators \<open>-\<close>
  and \<open>!\<close>, and the binary operators, from the highest precedence to the lowest:
  \<open>* / %\<close>, \<open>+ -\<close>, \<open>< <= > >=\<close>, \<open>== !=\<close>, \<open>&&\<close>, \<open>||\<close>. It marks no operator as
  right-associative.
\<close>

definition specTypes :: "(byte list \<times> typeDesc) list" where
  "specTypes = map (\<lambda>t. (t, t)) [''Asset'', ''Amount'', ''Integer'', ''Boolean'', ''PublicKey'',
     ''Signature'', ''String'', ''Hash'', ''Program'', ''Time'']"

definition specUnaryOps :: "unaryOp list" where
  "specUnaryOps = [\<lparr>unOp = ''-''\<rparr>, \<lparr>unOp = ''!''\<rparr>]"

definition specBinaryOps :: "binaryOp list" where
  "specBinaryOps =
     [\<lparr>binOp = ''*'', precedence = 6, rightAssoc = False\<rparr>,
      \<lparr>binOp = ''/'', precedence = 6, rightAssoc = False\<rparr>,
      \<lparr>binOp = ''%'', precedence = 6, rightAssoc = False\<rparr>,
      \<lparr>binOp = ''+'', precedence = 5, rightAssoc = False\<rparr>,
      \<lparr>binOp = ''-'', precedence = 5, rightAssoc = False\<rparr>,
      \<lparr>binOp = ''<'', precedence = 4, rightAssoc = False\<rparr>,
      \<lparr>binOp = ''<='', precedence = 4, rightAssoc = False\<rparr>,
      \<lparr>binOp = ''>'', precedence = 4, rightAssoc = False\<rparr>,
      \<lparr>binOp = ''>='', precedence = 4, rightAssoc = False\<rparr>,
      \<lparr>binOp = ''=='', precedence = 3, rightAssoc = False\<rparr>,
      \<lparr>binOp = ''!='', precedence = 3, rightAssoc = False\<rparr>,
      \<lparr>binOp = ''&&'', precedence = 2, rightAssoc = False\<rparr>,
      \<lparr>binOp = ''||'', precedence = 1, rightAssoc = False\<rparr>]"

definition specTables :: tables where
  "specTables = \<lparr>typesTable = map_of specTypes, unaryOps = specUnaryOps, binaryOps = specBinaryOps\<rparr>"


text \<open>A file without import directives: nothing is read, no contract comes first.\<close>

definition noImports :: importParser where
  "noImports buf pos = Inr ([], pos)"

text \<open>
  A source whose contract, parameters, locked value, clause and variables are all named by
  keywords.
\<close>

definition sourceOfKeywords :: "byte list" where
  "sourceOfKeywords = ''contract lock(verify, x: Integer) locks locks of of { ''
     @ ''clause clause(else: Program) { define if: Integer assign of = with verify lock } }''"

text \<open>A source of two lines whose second line lacks the keyword \<open>of\<close>.\<close>

definition sourceWithoutOf :: "byte list" where
  "sourceWithoutOf = ''contract X()'' @ [CHR 0x0A] @ ''  locks a b { }''"


section \<open>Notions of the specification\<close>

text \<open>
  An identifier in the words of the specification, \<open>[A-Za-z_][A-Za-z_0-9]*\<close>.
\<close>

definition isLetter :: "byte \<Rightarrow> bool" where
  "isLetter c = ((CHR ''a'' \<le> c \<and> c \<le> CHR ''z'') \<or> (CHR ''A'' \<le> c \<and> c \<le> CHR ''Z'') \<or> c = CHR ''_'')"

definition identifierToken :: "byte list \<Rightarrow> bool" where
  "identifierToken w = (w \<noteq> [] \<and> isLetter (hd w) \<and> list_all (\<lambda>c. isLetter c \<or> isDigit c) (tl w))"

text \<open>
  An identifier token \<open>w\<close> stands at a position when the buffer, after the whitespace and
  the comments that begin at the position, continues with \<open>w\<close>, and \<open>w\<close> ends there: it is
  followed by the end of the input or by a byte that is neither a letter, an underscore
  nor a digit. \<open>afterToken\<close> is the offset just behind it.
\<close>

definition afterToken :: "byte list \<Rightarrow> nat \<Rightarrow> byte list \<Rightarrow> nat" where
  "afterToken buf pos w = skipWsAndComments buf pos + length w"

definition identifierAt :: "byte list \<Rightarrow> nat \<Rightarrow> byte list \<Rightarrow> bool" where
  "identifierAt buf pos w =
     (identifierToken w \<and> prefix w (drop (skipWsAndComments buf pos) buf)
      \<and> (afterToken buf pos w < length buf \<longrightarrow>
           \<not> (isLetter (buf ! afterToken buf pos w) \<or> isDigit (buf ! afterToken buf pos w))))"

text \<open>
  The line and the column of an offset in the words of the specification: the number of
  newline bytes before the offset, and the number of bytes since the last of them.
\<close>

definition newlinesBefore :: "byte list \<Rightarrow> nat \<Rightarrow> nat" where
  "newlinesBefore buf off = length (filter (\<lambda>c. c = CHR 0x0A) (take off buf))"

definition bytesSinceNewline :: "byte list \<Rightarrow> nat \<Rightarrow> nat" where
  "bytesSinceNewline buf off = length (takeWhile (\<lambda>c. c \<noteq> CHR 0x0A) (rev (take off buf)))"

section \<open>The invariant of the parser\<close>

text \<open>
  A parser error is well formed for a buffer when it holds that buffer, its offset lies in
  it and its format has a message. A result stays in the buffer when its error, if it is
  a parser error, is well formed and its value, if it has one, satisfies \<open>P\<close> (a bound on
  the new position).
\<close>

definition wfErr :: "byte list \<Rightarrow> parserErr \<Rightarrow> bool" where
  "wfErr buf e = (errBuf e = buf \<and> 0 \<le> errOffset e \<and> errOffset e \<le> int (length buf)
     \<and> Sprintf (errFormat e) (errArgs e) \<noteq> None)"

definition inBuf :: "byte list \<Rightarrow> ('a \<Rightarrow> bool) \<Rightarrow> abort + 'a \<Rightarrow> bool" where
  "inBuf buf P r =
     (case r of
        Inl (ParserPanic e) \<Rightarrow> wfErr buf e
      | Inl (OtherPanic val) \<Rightarrow> True
      | Inl OutOfFuel \<Rightarrow> True
      | Inr v \<Rightarrow> P v)"

section \<open>The scan loops on a run of bytes\<close>

lemma skipLoop_le: "offset \<le> length buf \<Longrightarrow> skipLoop buf offset c \<le> length buf"
proof (induction buf offset c rule: skipLoop.induct)
  case (1 buf offset inComment)
  show ?case
    using 1 by (subst skipLoop.simps) auto
qed

lemma skipWs_le: "offset \<le> length buf \<Longrightarrow> skipWsAndComments buf offset \<le> length buf"
  by (simp add: skipWsAndComments_def skipLoop_le)


lemma idLoop_le: "i \<le> length buf \<Longrightarrow> idLoop buf offset i \<le> length buf"
proof (induction buf offset i rule: idLoop.induct)
  case (1 buf offset i)
  show ?case using 1 by (subst idLoop.simps) auto
qed

text \<open>A buffer that continues with \<open>w @ rest\<close> at \<open>off\<close>.\<close>

lemma drop_eq_appendD:
  assumes "drop off buf = w @ rest" "w \<noteq> []"
  shows "length buf = off + length w + length rest"
    and "\<And>k. k < length w \<Longrightarrow> buf ! (off + k) = w ! k"
    and "\<And>k. k < length rest \<Longrightarrow> buf ! (off + length w + k) = rest ! k"
    and "slice buf off (off + length w) = w"
proof -
  from assms have lt: "off < length buf" by (cases "off < length buf") auto
  from assms(1) have "length (drop off buf) = length w + length rest" by simp
  with lt show len: "length buf = off + length w + length rest" by simp
  show "buf ! (off + k) = w ! k" if "k < length w" for k
  proof -
    have "buf ! (off + k) = drop off buf ! k" using len that by simp
    then show ?thesis using assms(1) that by (simp add: nth_append)
  qed
  show "buf ! (off + length w + k) = rest ! k" if "k < length rest" for k
  proof -
    have "buf ! (off + (length w + k)) = drop off buf ! (length w + k)" using len that by simp
    then show ?thesis using assms(1) by (simp add: add.assoc)
  qed
  show "slice buf off (off + length w) = w"
    using assms(1) by (simp add: slice_def)
qed


lemma isIDChar_later: "isIDChar c False = (isLetter c \<or> isDigit c)"
  by (auto simp: isIDChar_def isLetter_def)


lemma hexLoop_odd:
  assumes digits: "\<forall>k<m. isHexDigit (buf ! (b + k))"
    and len: "b + m \<le> length buf"
    and fin: "b + m = length buf \<or> \<not> isHexDigit (buf ! (b + m))"
    and m: "odd m"
  shows "even j \<Longrightarrow> j < m \<Longrightarrow>
    hexLoop buf off (b + j) =
      Inl (ParserPanic (parseErr buf off ''odd number of digits in hex literal'' []))"
proof (induction "m - j" arbitrary: j rule: less_induct)
  case less
  have lt: "b + j < length buf" using less.prems len by simp
  have hex: "isHexDigit (buf ! (b + j))" using digits less.prems by simp
  show ?case
  proof (cases "b + j = length buf - 1")
    case True
    then show ?thesis using lt by (subst hexLoop.simps) simp
  next
    case notlast: False
    show ?thesis
    proof (cases "isHexDigit (buf ! (b + j + 1))")
      case False
      then show ?thesis using lt notlast hex by (subst hexLoop.simps) simp
    next
      case True
      have "j + 1 \<noteq> m"
      proof
        assume e: "j + 1 = m"
        then have "b + m \<noteq> length buf" using notlast lt by simp
        with fin have "\<not> isHexDigit (buf ! (b + m))" by simp
        moreover from True have "isHexDigit (buf ! (b + m))"
          unfolding e [symmetric] by (simp add: add.assoc)
        ultimately show False by simp
      qed
      moreover have "j + 2 \<noteq> m" using m less.prems(1) by auto
      ultimately have j2: "j + 2 < m" using less.prems(2) by simp
      have "hexLoop buf off (b + (j + 2)) =
          Inl (ParserPanic (parseErr buf off ''odd number of digits in hex literal'' []))"
        using j2 less.prems(1) by (intro less.hyps) auto
      then show ?thesis using lt notlast hex True
        by (subst hexLoop.simps) (simp add: add.assoc)
    qed
  qed
qed

lemma not_isDigit_x: "\<not> isDigit (CHR ''x'')" "\<not> isDigit (CHR ''X'')" "\<not> isDigit (CHR ''-'')"
  "\<not> isDigit (CHR ''+'')" "isDigit (CHR ''0'')"
  by (simp_all add: isDigit_def)

lemma intLoop_run:
  assumes digits: "\<forall>k<m. isDigit (buf ! (b + k))"
    and len: "b + m \<le> length buf"
    and fin: "b + m = length buf \<or> \<not> isDigit (buf ! (b + m))"
    and nohex: "\<not> (0 < m \<and> buf ! (b + m - 1) = CHR ''0'' \<and> b + m < length buf
                  \<and> (buf ! (b + m) = CHR ''x'' \<or> buf ! (b + m) = CHR ''X''))"
  shows "j \<le> m \<Longrightarrow> intLoop buf (b + j) = Some (b + m)"
proof (induction "m - j" arbitrary: j)
  case 0
  then have "j = m" by simp
  then show ?case using fin len by (subst intLoop.simps) auto
next
  case (Suc d)
  then have jm: "j < m" by simp
  then have lt: "b + j < length buf" and dig: "isDigit (buf ! (b + j))"
    using len digits by simp_all
  have nomark: "\<not> (buf ! (b + j) = CHR ''0'' \<and> b + j < length buf - 1
      \<and> (buf ! (b + j + 1) = CHR ''x'' \<or> buf ! (b + j + 1) = CHR ''X''))"
  proof (cases "j + 1 < m")
    case True
    then have "isDigit (buf ! (b + (j + 1)))" using digits by blast
    then show ?thesis by (auto simp: add.assoc not_isDigit_x)
  next
    case False
    with jm have e: "m = j + 1" by simp
    show ?thesis using nohex unfolding e by (auto simp: add.assoc)
  qed
  have "intLoop buf (b + (j + 1)) = Some (b + m)"
    using Suc jm by (intro Suc.hyps) auto
  then show ?case using lt dig nomark
    by (subst intLoop.simps) (simp add: add.assoc)
qed

lemma intLoop_hex:
  assumes "b + 1 < length buf" "buf ! b = CHR ''0''"
    "buf ! (b + 1) = CHR ''x'' \<or> buf ! (b + 1) = CHR ''X''"
  shows "intLoop buf b = None"
  using assms by (subst intLoop.simps) (auto simp: not_isDigit_x)

lemma digitVal_nonneg: "0 \<le> digitVal c"
  by (simp add: digitVal_def)

lemma foldl_decimal_nonneg:
  "list_all isDigit ds \<Longrightarrow> 0 \<le> a \<Longrightarrow> 0 \<le> foldl (\<lambda>acc c. 10 * acc + digitVal c) a ds"
  by (induction ds arbitrary: a) (simp_all add: digitVal_nonneg)

lemma decimalVal_nonneg: "list_all isDigit ds \<Longrightarrow> 0 \<le> decimalVal ds"
  by (simp add: decimalVal_def foldl_decimal_nonneg)

lemma ParseInt_digits:
  assumes "ds \<noteq> []" "list_all isDigit ds"
  shows "ParseInt ds = (if decimalVal ds \<le> 2 ^ 63 - 1 then Inr (decimalVal ds) else Inl ErrRange)"
proof -
  from assms have "isDigit (hd ds)" by (cases ds) simp_all
  then have "hd ds \<noteq> CHR ''-''" "hd ds \<noteq> CHR ''+''" by (auto simp: not_isDigit_x)
  then show ?thesis using assms
    by (simp add: ParseInt_def ParseUint_def Let_def)
qed

lemma ParseInt_minus_digits:
  assumes "ds \<noteq> []" "list_all isDigit ds"
  shows "ParseInt (CHR ''-'' # ds) =
    (if - (2 ^ 63) \<le> - decimalVal ds then Inr (- decimalVal ds) else Inl ErrRange)"
  using assms by (simp add: ParseInt_def ParseUint_def Let_def)

lemma scanTok_SomeD:
  "scanTok buf offset s = Some p \<Longrightarrow>
     prefix s (drop (skipWsAndComments buf offset) buf) \<and> p = skipWsAndComments buf offset + length s"
  by (auto simp: scanTok_def Let_def split: if_splits)

lemma consumeTok_peekTok: "consumeTok buf pos token = Inr p \<Longrightarrow> peekTok buf pos token"
  by (simp add: consumeTok_def peekTok_def errorf_def split: option.splits)

section \<open>Positions stay in the buffer\<close>

lemma inBufI:
  "(\<And>v. r = Inr v \<Longrightarrow> P v) \<Longrightarrow> (\<And>e. r = Inl (ParserPanic e) \<Longrightarrow> wfErr buf e) \<Longrightarrow> inBuf buf P r"
  by (auto simp: inBuf_def split: sum.splits abort.splits)

lemma inBuf_InrD: "inBuf buf P r \<Longrightarrow> r = Inr v \<Longrightarrow> P v"
  by (simp add: inBuf_def)

lemma inBuf_errD: "inBuf buf P r \<Longrightarrow> r = Inl (ParserPanic e) \<Longrightarrow> wfErr buf e"
  by (simp add: inBuf_def)

lemma wfErr_errorf:
  "pos \<le> length buf \<Longrightarrow> Sprintf format args \<noteq> None \<Longrightarrow>
     (errorf buf (int pos) format args :: abort + 'a) = Inl (ParserPanic e) \<Longrightarrow> wfErr buf e"
  by (auto simp: errorf_def wfErr_def)

lemma wfErr_parseErr:
  "pos \<le> length buf \<Longrightarrow> Sprintf format args \<noteq> None \<Longrightarrow> wfErr buf (parseErr buf pos format args)"
  by (simp add: parseErr_def wfErr_def)

lemma scanTok_le: "scanTok buf offset s = Some p \<Longrightarrow> offset \<le> length buf \<Longrightarrow> p \<le> length buf"
proof -
  assume a: "scanTok buf offset s = Some p" and b: "offset \<le> length buf"
  let ?o = "skipWsAndComments buf offset"
  from a have pre: "prefix s (drop ?o buf)" and p: "p = ?o + length s"
    using scanTok_SomeD by blast+
  from pre have "length s \<le> length (drop ?o buf)" by (rule prefix_length_le)
  moreover have "?o \<le> length buf" using b by (rule skipWs_le)
  ultimately show ?thesis using p by simp
qed

lemma scanIdentifier_le:
  "scanIdentifier buf offset = Some (name, p) \<Longrightarrow> offset \<le> length buf \<Longrightarrow> p \<le> length buf"
  by (auto simp: scanIdentifier_def Let_def split: if_splits intro: idLoop_le skipWs_le)

lemma scanKeyword_le:
  "scanKeyword buf offset keyword = Some p \<Longrightarrow> offset \<le> length buf \<Longrightarrow> p \<le> length buf"
  by (auto simp: scanKeyword_def split: option.splits if_splits dest: scanIdentifier_le)

lemma intLoop_le: "intLoop buf i = Some j \<Longrightarrow> i \<le> length buf \<Longrightarrow> j \<le> length buf"
proof (induction buf i rule: intLoop.induct)
  case (1 buf i)
  from "1.prems" show ?case
    by (subst (asm) intLoop.simps) (auto split: if_splits intro: "1.IH")
qed

lemma scanIntLiteral_le:
  "scanIntLiteral buf offset = Some (v, p) \<Longrightarrow> offset \<le> length buf \<Longrightarrow> p \<le> length buf"
proof -
  assume a: "scanIntLiteral buf offset = Some (v, p)" and b: "offset \<le> length buf"
  let ?s = "skipWsAndComments buf offset"
  let ?o = "if ?s < length buf \<and> buf ! ?s = CHR ''-'' then ?s + 1 else ?s"
  have "?s \<le> length buf" using b by (rule skipWs_le)
  then have o: "?o \<le> length buf" by auto
  from a have "intLoop buf ?o = Some p"
    by (auto simp: scanIntLiteral_def Let_def split: option.splits if_splits sum.splits)
  then show ?thesis using o by (rule intLoop_le)
qed

lemma Sprintf_plain [simp]:
  "Sprintf ''unterminated string literal'' [] \<noteq> None"
  "Sprintf ''odd number of digits in hex literal'' [] \<noteq> None"
  "Sprintf ''expected identifier'' [] \<noteq> None"
  "Sprintf ''expected contract'' [] \<noteq> None"
  "Sprintf ''expected %s token'' [StrArg s] \<noteq> None"
  "Sprintf ''expected keyword %s'' [StrArg s] \<noteq> None"
  "Sprintf ''unknown type %s'' [StrArg s] \<noteq> None"
  "Sprintf (''unknown keyword '' @ [CHR 0x22] @ ''%s'' @ [CHR 0x22]) [StrArg s] \<noteq> None"
  by simp_all

lemma strLoop_inBuf:
  "offset \<le> length buf \<Longrightarrow> i \<le> length buf \<Longrightarrow>
     inBuf buf (\<lambda>v. snd v \<le> length buf) (strLoop buf offset i byteBuf)"
proof (induction buf offset i byteBuf rule: strLoop.induct)
  case (1 buf offset i byteBuf)
  show ?case
    apply (subst strLoop.simps)
    using 1 by (auto simp: inBuf_def wfErr_parseErr)
qed

lemma hexLoop_inBuf:
  "offset \<le> length buf \<Longrightarrow> i \<le> length buf \<Longrightarrow>
     inBuf buf (\<lambda>j. j \<le> length buf) (hexLoop buf offset i)"
proof (induction buf offset i rule: hexLoop.induct)
  case (1 buf offset i)
  show ?case
    apply (subst hexLoop.simps)
    using 1 by (auto simp: inBuf_def wfErr_parseErr)
qed


lemma scanStrLiteral_inBuf:
  "offset \<le> length buf \<Longrightarrow>
     inBuf buf (\<lambda>r. \<forall>v. r = Some v \<longrightarrow> snd v \<le> length buf) (scanStrLiteral buf offset)"
proof -
  assume "offset \<le> length buf"
  then have o: "skipWsAndComments buf offset \<le> length buf" by (rule skipWs_le)
  show ?thesis
  proof (cases "skipWsAndComments buf offset < length buf")
    case True
    then have "inBuf buf (\<lambda>v. snd v \<le> length buf)
        (strLoop buf (skipWsAndComments buf offset) (skipWsAndComments buf offset + 1) [])"
      using o by (intro strLoop_inBuf) simp_all
    then show ?thesis
      by (auto simp: scanStrLiteral_def Let_def inBuf_def split: sum.splits abort.splits)
  next
    case False
    then show ?thesis by (simp add: scanStrLiteral_def Let_def inBuf_def)
  qed
qed

lemma scanBytesLiteral_inBuf:
  "offset \<le> length buf \<Longrightarrow>
     inBuf buf (\<lambda>r. \<forall>v. r = Some v \<longrightarrow> snd v \<le> length buf) (scanBytesLiteral buf offset)"
proof -
  assume "offset \<le> length buf"
  then have o: "skipWsAndComments buf offset \<le> length buf" by (rule skipWs_le)
  show ?thesis
  proof (cases "skipWsAndComments buf offset + 4 \<ge> length buf")
    case True
    then show ?thesis by (simp add: scanBytesLiteral_def Let_def inBuf_def)
  next
    case False
    then have "inBuf buf (\<lambda>j. j \<le> length buf)
        (hexLoop buf (skipWsAndComments buf offset) (skipWsAndComments buf offset + 4))"
      using o by (intro hexLoop_inBuf) simp_all
    then show ?thesis
      by (auto simp: scanBytesLiteral_def Let_def inBuf_def split: sum.splits abort.splits option.splits)
  qed
qed

lemma scanBoolLiteral_le:
  "scanBoolLiteral buf offset = Some (v, p) \<Longrightarrow> offset \<le> length buf \<Longrightarrow> p \<le> length buf"
  by (auto simp: scanBoolLiteral_def Let_def split: if_splits option.splits
      dest!: scanKeyword_le intro: skipWs_le)

lemma scanLiteralExpr_inBuf:
  "offset \<le> length buf \<Longrightarrow>
     inBuf buf (\<lambda>r. \<forall>v. r = Some v \<longrightarrow> snd v \<le> length buf) (scanLiteralExpr buf offset)"
proof -
  assume "offset \<le> length buf"
  then have o: "skipWsAndComments buf offset \<le> length buf" by (rule skipWs_le)
  note s = scanStrLiteral_inBuf [OF o] and b = scanBytesLiteral_inBuf [OF o]
  show ?thesis
  proof (rule inBufI)
    fix v assume "scanLiteralExpr buf offset = Inr v"
    then show "\<forall>w. v = Some w \<longrightarrow> snd w \<le> length buf"
      using o inBuf_InrD [OF s] inBuf_InrD [OF b]
      by (auto simp: scanLiteralExpr_def Let_def split: option.splits sum.splits
          dest: scanIntLiteral_le scanBoolLiteral_le)
  next
    fix e assume "scanLiteralExpr buf offset = Inl (ParserPanic e)"
    then show "wfErr buf e"
      using inBuf_errD [OF s] inBuf_errD [OF b]
      by (auto simp: scanLiteralExpr_def Let_def split: option.splits sum.splits)
  qed
qed

lemma unaryLoop_le:
  "unaryLoop ops buf offset = Some (uop, p) \<Longrightarrow> offset \<le> length buf \<Longrightarrow> p \<le> length buf"
  by (induction ops) (auto split: option.splits dest: scanTok_le)

lemma scanUnaryOp_le:
  "scanUnaryOp T buf offset = Some (uop, p) \<Longrightarrow> offset \<le> length buf \<Longrightarrow> p \<le> length buf"
  by (auto simp: scanUnaryOp_def split: option.splits dest: unaryLoop_le)

lemma binaryLoop_le:
  "binaryLoop ops buf offset found = Some (bop, p) \<Longrightarrow> offset \<le> length buf
     \<Longrightarrow> (\<And>f q. found = Some (f, q) \<Longrightarrow> q \<le> length buf) \<Longrightarrow> p \<le> length buf"
proof (induction ops arbitrary: found)
  case Nil
  then show ?case by simp
next
  case (Cons x ops)
  show ?case
  proof (cases "scanTok buf offset (binOp x)")
    case None
    with Cons.prems(1) have "binaryLoop ops buf offset found = Some (bop, p)" by simp
    then show ?thesis using Cons.prems(2,3) by (rule Cons.IH)
  next
    case (Some q)
    then have q: "q \<le> length buf" using Cons.prems(2) by (rule scanTok_le)
    from Cons.prems(1) Some
    consider "binaryLoop ops buf offset (Some (x, q)) = Some (bop, p)"
      | "binaryLoop ops buf offset found = Some (bop, p)"
      by (auto split: option.splits if_splits)
    then show ?thesis
    proof cases
      case 1
      show ?thesis
      proof (rule Cons.IH [OF 1 Cons.prems(2)])
        fix f q' assume "Some (x, q) = Some (f, q')"
        then show "q' \<le> length buf" using q by simp
      qed
    next
      case 2
      then show ?thesis using Cons.prems(2,3) by (rule Cons.IH)
    qed
  qed
qed

lemma scanBinaryOp_le:
  "scanBinaryOp T buf offset = Some (bop, p) \<Longrightarrow> offset \<le> length buf \<Longrightarrow> p \<le> length buf"
  unfolding scanBinaryOp_def
  by (erule binaryLoop_le) (simp_all add: skipWs_le)

lemma consumeTok_inBuf:
  "pos \<le> length buf \<Longrightarrow> inBuf buf (\<lambda>p. p \<le> length buf) (consumeTok buf pos token)"
  by (auto simp: consumeTok_def inBuf_def errorf_def wfErr_def split: option.splits dest: scanTok_le)

lemma consumeKeyword_inBuf:
  "pos \<le> length buf \<Longrightarrow> inBuf buf (\<lambda>p. p \<le> length buf) (consumeKeyword buf pos keyword)"
  by (auto simp: consumeKeyword_def inBuf_def errorf_def wfErr_def split: option.splits
      dest: scanKeyword_le)

lemma consumeIdentifier_inBuf:
  "pos \<le> length buf \<Longrightarrow> inBuf buf (\<lambda>v. snd v \<le> length buf) (consumeIdentifier buf pos)"
  by (auto simp: consumeIdentifier_def inBuf_def errorf_def wfErr_def split: option.splits
      dest: scanIdentifier_le)

lemma inBuf_pairD:
  "inBuf buf (\<lambda>v. snd v \<le> length buf) r \<Longrightarrow> r = Inr (x, p) \<Longrightarrow> p \<le> length buf"
  by (simp add: inBuf_def)

lemma inBuf_someD:
  "inBuf buf (\<lambda>r. \<exists>v. r = Some v \<and> snd v \<le> length buf) r \<Longrightarrow> r = Inr (Some (x, p))
     \<Longrightarrow> p \<le> length buf"
  by (simp add: inBuf_def)

lemma inBuf_noneD:
  "inBuf buf (\<lambda>r. \<exists>v. r = Some v \<and> snd v \<le> length buf) r \<Longrightarrow> r = Inr None \<Longrightarrow> False"
  by (simp add: inBuf_def)

lemma inBuf_optD:
  "inBuf buf (\<lambda>r. \<forall>v. r = Some v \<longrightarrow> snd v \<le> length buf) r \<Longrightarrow> r = Inr (Some (x, p))
     \<Longrightarrow> p \<le> length buf"
  by (simp add: inBuf_def)

lemma inBuf_natD:
  "inBuf buf (\<lambda>p. p \<le> length buf) r \<Longrightarrow> r = Inr p \<Longrightarrow> p \<le> length buf"
  by (simp add: inBuf_def)

lemma inBuf_pairI:
  "(\<And>x p. r = Inr (x, p) \<Longrightarrow> p \<le> length buf)
     \<Longrightarrow> (\<And>e. r = Inl (ParserPanic e) \<Longrightarrow> wfErr buf e)
     \<Longrightarrow> inBuf buf (\<lambda>v. snd v \<le> length buf) r"
  by (rule inBufI) auto

lemma inBuf_someI:
  "(\<And>x p. r = Inr (Some (x, p)) \<Longrightarrow> p \<le> length buf)
     \<Longrightarrow> (r = Inr None \<Longrightarrow> False)
     \<Longrightarrow> (\<And>e. r = Inl (ParserPanic e) \<Longrightarrow> wfErr buf e)
     \<Longrightarrow> inBuf buf (\<lambda>r. \<exists>v. r = Some v \<and> snd v \<le> length buf) r"
proof (rule inBufI)
  fix v
  assume "\<And>x p. r = Inr (Some (x, p)) \<Longrightarrow> p \<le> length buf" "r = Inr None \<Longrightarrow> False" "r = Inr v"
  then show "\<exists>w. v = Some w \<and> snd w \<le> length buf" by (cases v) auto
qed

lemmas scan_ok =
  inBuf_natD [OF consumeTok_inBuf, rotated] inBuf_natD [OF consumeKeyword_inBuf, rotated]
  inBuf_pairD [OF consumeIdentifier_inBuf, rotated] inBuf_optD [OF scanLiteralExpr_inBuf, rotated]
  scanUnaryOp_le scanBinaryOp_le

lemmas scan_er =
  inBuf_errD [OF consumeTok_inBuf, rotated] inBuf_errD [OF consumeKeyword_inBuf, rotated]
  inBuf_errD [OF consumeIdentifier_inBuf, rotated] inBuf_errD [OF scanLiteralExpr_inBuf, rotated]

lemma expr_inBuf:
  "(\<forall>buf pos. pos \<le> length buf \<longrightarrow>
      inBuf buf (\<lambda>v. snd v \<le> length buf) (parseExpr T n buf pos))
 \<and> (\<forall>buf pos. pos \<le> length buf \<longrightarrow>
      inBuf buf (\<lambda>v. snd v \<le> length buf) (parseUnaryExpr T n buf pos))
 \<and> (\<forall>buf pos lhs mp. pos \<le> length buf \<longrightarrow>
      inBuf buf (\<lambda>r. \<exists>v. r = Some v \<and> snd v \<le> length buf) (parseExprCont T n buf pos lhs mp))
 \<and> (\<forall>buf pos rhs bop. pos \<le> length buf \<longrightarrow>
      inBuf buf (\<lambda>r. \<exists>v. r = Some v \<and> snd v \<le> length buf) (parseExprContRhs T n buf pos rhs bop))
 \<and> (\<forall>buf pos. pos \<le> length buf \<longrightarrow>
      inBuf buf (\<lambda>v. snd v \<le> length buf) (parseExpr2 T n buf pos))
 \<and> (\<forall>buf pos. pos \<le> length buf \<longrightarrow>
      inBuf buf (\<lambda>v. snd v \<le> length buf) (parseExpr3 T n buf pos))
 \<and> (\<forall>buf pos. pos \<le> length buf \<longrightarrow>
      inBuf buf (\<lambda>v. snd v \<le> length buf) (parseExpr4 T n buf pos))
 \<and> (\<forall>buf pos closer frst elts. pos \<le> length buf \<longrightarrow>
      inBuf buf (\<lambda>v. snd v \<le> length buf) (parseExprList T n buf pos closer frst elts))
 \<and> (\<forall>buf pos. pos \<le> length buf \<longrightarrow>
      inBuf buf (\<lambda>v. snd v \<le> length buf) (parseArgs T n buf pos))"
proof (induction n)
  case 0
  show ?case
    by (simp add: inBuf_def parseExpr.simps parseUnaryExpr.simps parseExprCont.simps
        parseExprContRhs.simps parseExpr2.simps parseExpr3.simps parseExpr4.simps
        parseExprList.simps parseArgs.simps)
next
  case (Suc n)
  note ih1 = Suc.IH [THEN conjunct1, rule_format]
  note ih2 = Suc.IH [THEN conjunct2, THEN conjunct1, rule_format]
  note ih3 = Suc.IH [THEN conjunct2, THEN conjunct2, THEN conjunct1, rule_format]
  note ih4 = Suc.IH [THEN conjunct2, THEN conjunct2, THEN conjunct2, THEN conjunct1, rule_format]
  note ih5 = Suc.IH [THEN conjunct2, THEN conjunct2, THEN conjunct2, THEN conjunct2, THEN conjunct1, rule_format]
  note ih6 = Suc.IH [THEN conjunct2, THEN conjunct2, THEN conjunct2, THEN conjunct2, THEN conjunct2, THEN conjunct1, rule_format]
  note ih7 = Suc.IH [THEN conjunct2, THEN conjunct2, THEN conjunct2, THEN conjunct2, THEN conjunct2, THEN conjunct2, THEN conjunct1, rule_format]
  note ih8 = Suc.IH [THEN conjunct2, THEN conjunct2, THEN conjunct2, THEN conjunct2, THEN conjunct2, THEN conjunct2, THEN conjunct2, THEN conjunct1, rule_format]
  note ih9 = Suc.IH [THEN conjunct2, THEN conjunct2, THEN conjunct2, THEN conjunct2, THEN conjunct2, THEN conjunct2, THEN conjunct2, THEN conjunct2, rule_format]
  note ok = inBuf_pairD [OF ih1, rotated] inBuf_pairD [OF ih2, rotated] inBuf_someD [OF ih3, rotated]
    inBuf_noneD [OF ih3, rotated] inBuf_someD [OF ih4, rotated] inBuf_noneD [OF ih4, rotated]
    inBuf_pairD [OF ih5, rotated] inBuf_pairD [OF ih6, rotated]
    inBuf_pairD [OF ih7, rotated] inBuf_pairD [OF ih8, rotated] inBuf_pairD [OF ih9, rotated]
    scan_ok
  note er = inBuf_errD [OF ih1, rotated] inBuf_errD [OF ih2, rotated] inBuf_errD [OF ih3, rotated]
    inBuf_errD [OF ih4, rotated] inBuf_errD [OF ih5, rotated] inBuf_errD [OF ih6, rotated]
    inBuf_errD [OF ih7, rotated] inBuf_errD [OF ih8, rotated] inBuf_errD [OF ih9, rotated]
    scan_er
  have s1: "inBuf buf (\<lambda>v. snd v \<le> length buf) (parseExpr T (Suc n) buf pos)"
    if "pos \<le> length buf" for buf pos
  proof (rule inBuf_pairI)
    fix x p assume "parseExpr T (Suc n) buf pos = Inr (x, p)"
    then show "p \<le> length buf" using that
      by (subst (asm) parseExpr.simps)
        (auto simp: errorf_def split: sum.splits option.splits prod.splits if_splits dest: ok)
  next
    fix e assume "parseExpr T (Suc n) buf pos = Inl (ParserPanic e)"
    then show "wfErr buf e" using that
      by (subst (asm) parseExpr.simps)
        (auto simp: errorf_def split: sum.splits option.splits prod.splits if_splits dest: ok er)
  qed
  have s2: "inBuf buf (\<lambda>v. snd v \<le> length buf) (parseUnaryExpr T (Suc n) buf pos)"
    if "pos \<le> length buf" for buf pos
  proof (rule inBuf_pairI)
    fix x p assume "parseUnaryExpr T (Suc n) buf pos = Inr (x, p)"
    then show "p \<le> length buf" using that
      by (subst (asm) parseUnaryExpr.simps)
        (auto simp: errorf_def split: sum.splits option.splits prod.splits if_splits dest: ok)
  next
    fix e assume "parseUnaryExpr T (Suc n) buf pos = Inl (ParserPanic e)"
    then show "wfErr buf e" using that
      by (subst (asm) parseUnaryExpr.simps)
        (auto simp: errorf_def split: sum.splits option.splits prod.splits if_splits dest: ok er)
  qed
  have s3: "inBuf buf (\<lambda>r. \<exists>v. r = Some v \<and> snd v \<le> length buf) (parseExprCont T (Suc n) buf pos lhs mp)"
    if "pos \<le> length buf" for buf pos lhs mp
  proof (rule inBuf_someI)
    fix x p assume "parseExprCont T (Suc n) buf pos lhs mp = Inr (Some (x, p))"
    then show "p \<le> length buf" using that
      by (subst (asm) parseExprCont.simps)
        (auto simp: errorf_def split: sum.splits option.splits prod.splits if_splits dest: ok)
  next
    assume "parseExprCont T (Suc n) buf pos lhs mp = Inr None"
    then show False using that
      by (subst (asm) parseExprCont.simps)
        (auto simp: errorf_def split: sum.splits option.splits prod.splits if_splits dest: ok)
  next
    fix e assume "parseExprCont T (Suc n) buf pos lhs mp = Inl (ParserPanic e)"
    then show "wfErr buf e" using that
      by (subst (asm) parseExprCont.simps)
        (auto simp: errorf_def split: sum.splits option.splits prod.splits if_splits dest: ok er)
  qed
  have s4: "inBuf buf (\<lambda>r. \<exists>v. r = Some v \<and> snd v \<le> length buf) (parseExprContRhs T (Suc n) buf pos rhs bop)"
    if "pos \<le> length buf" for buf pos rhs bop
  proof (rule inBuf_someI)
    fix x p assume "parseExprContRhs T (Suc n) buf pos rhs bop = Inr (Some (x, p))"
    then show "p \<le> length buf" using that
      by (subst (asm) parseExprContRhs.simps)
        (auto simp: errorf_def split: sum.splits option.splits prod.splits if_splits dest: ok)
  next
    assume "parseExprContRhs T (Suc n) buf pos rhs bop = Inr None"
    then show False using that
      by (subst (asm) parseExprContRhs.simps)
        (auto simp: errorf_def split: sum.splits option.splits prod.splits if_splits dest: ok)
  next
    fix e assume "parseExprContRhs T (Suc n) buf pos rhs bop = Inl (ParserPanic e)"
    then show "wfErr buf e" using that
      by (subst (asm) parseExprContRhs.simps)
        (auto simp: errorf_def split: sum.splits option.splits prod.splits if_splits dest: ok er)
  qed
  have s5: "inBuf buf (\<lambda>v. snd v \<le> length buf) (parseExpr2 T (Suc n) buf pos)"
    if "pos \<le> length buf" for buf pos
  proof (rule inBuf_pairI)
    fix x p assume "parseExpr2 T (Suc n) buf pos = Inr (x, p)"
    then show "p \<le> length buf" using that
      by (subst (asm) parseExpr2.simps)
        (auto simp: errorf_def split: sum.splits option.splits prod.splits if_splits dest: ok)
  next
    fix e assume "parseExpr2 T (Suc n) buf pos = Inl (ParserPanic e)"
    then show "wfErr buf e" using that
      by (subst (asm) parseExpr2.simps)
        (auto simp: errorf_def split: sum.splits option.splits prod.splits if_splits dest: ok er)
  qed
  have s6: "inBuf buf (\<lambda>v. snd v \<le> length buf) (parseExpr3 T (Suc n) buf pos)"
    if "pos \<le> length buf" for buf pos
  proof (rule inBuf_pairI)
    fix x p assume "parseExpr3 T (Suc n) buf pos = Inr (x, p)"
    then show "p \<le> length buf" using that
      by (subst (asm) parseExpr3.simps)
        (auto simp: errorf_def split: sum.splits option.splits prod.splits if_splits dest: ok)
  next
    fix e assume "parseExpr3 T (Suc n) buf pos = Inl (ParserPanic e)"
    then show "wfErr buf e" using that
      by (subst (asm) parseExpr3.simps)
        (auto simp: errorf_def split: sum.splits option.splits prod.splits if_splits dest: ok er)
  qed
  have s7: "inBuf buf (\<lambda>v. snd v \<le> length buf) (parseExpr4 T (Suc n) buf pos)"
    if "pos \<le> length buf" for buf pos
  proof (rule inBuf_pairI)
    fix x p assume "parseExpr4 T (Suc n) buf pos = Inr (x, p)"
    then show "p \<le> length buf" using that
      by (subst (asm) parseExpr4.simps)
        (auto simp: errorf_def split: sum.splits option.splits prod.splits if_splits dest: ok)
  next
    fix e assume "parseExpr4 T (Suc n) buf pos = Inl (ParserPanic e)"
    then show "wfErr buf e" using that
      by (subst (asm) parseExpr4.simps)
        (auto simp: errorf_def split: sum.splits option.splits prod.splits if_splits dest: ok er)
  qed
  have s8: "inBuf buf (\<lambda>v. snd v \<le> length buf) (parseExprList T (Suc n) buf pos closer frst elts)"
    if "pos \<le> length buf" for buf pos closer frst elts
  proof (rule inBuf_pairI)
    fix x p assume "parseExprList T (Suc n) buf pos closer frst elts = Inr (x, p)"
    then show "p \<le> length buf" using that
      by (subst (asm) parseExprList.simps)
        (auto simp: errorf_def split: sum.splits option.splits prod.splits if_splits dest: ok)
  next
    fix e assume "parseExprList T (Suc n) buf pos closer frst elts = Inl (ParserPanic e)"
    then show "wfErr buf e" using that
      by (subst (asm) parseExprList.simps)
        (auto simp: errorf_def split: sum.splits option.splits prod.splits if_splits dest: ok er)
  qed
  have s9: "inBuf buf (\<lambda>v. snd v \<le> length buf) (parseArgs T (Suc n) buf pos)"
    if "pos \<le> length buf" for buf pos
  proof (rule inBuf_pairI)
    fix x p assume "parseArgs T (Suc n) buf pos = Inr (x, p)"
    then show "p \<le> length buf" using that
      by (subst (asm) parseArgs.simps)
        (auto simp: errorf_def split: sum.splits option.splits prod.splits if_splits dest: ok)
  next
    fix e assume "parseArgs T (Suc n) buf pos = Inl (ParserPanic e)"
    then show "wfErr buf e" using that
      by (subst (asm) parseArgs.simps)
        (auto simp: errorf_def split: sum.splits option.splits prod.splits if_splits dest: ok er)
  qed
  show ?case
    by (intro conjI allI impI;
        (erule s1 | erule s2 | erule s3 | erule s4 | erule s5 | erule s6 | erule s7 | erule s8 | erule s9))
qed

lemmas parseExpr_inBuf = expr_inBuf [THEN conjunct1, rule_format]

text \<open>The invariant through a sequence of calls.\<close>

lemma inBuf_bind_nat:
  assumes "inBuf buf (\<lambda>p. p \<le> length buf) m"
    and "\<And>p. p \<le> length buf \<Longrightarrow> inBuf buf Q (f p)"
  shows "inBuf buf Q (case m of Inl e \<Rightarrow> Inl e | Inr p \<Rightarrow> f p)"
proof (cases m)
  case (Inl e)
  then show ?thesis using assms(1) by (simp add: inBuf_def)
next
  case (Inr p)
  then have "p \<le> length buf" using assms(1) by (simp add: inBuf_def)
  then show ?thesis using assms(2) Inr by simp
qed

lemma inBuf_bind_pair:
  assumes "inBuf buf (\<lambda>v. snd v \<le> length buf) m"
    and "\<And>x p. p \<le> length buf \<Longrightarrow> inBuf buf Q (f x p)"
  shows "inBuf buf Q (case m of Inl e \<Rightarrow> Inl e | Inr (x, p) \<Rightarrow> f x p)"
proof (cases m)
  case (Inl e)
  then show ?thesis using assms(1) by (simp add: inBuf_def)
next
  case (Inr v)
  then have "snd v \<le> length buf" using assms(1) by (simp add: inBuf_def)
  then show ?thesis using assms(2) [of "snd v" "fst v"] Inr by (simp add: case_prod_unfold)
qed

lemma inBuf_bind_any:
  assumes "inBuf buf (\<lambda>v. True) m"
    and "\<And>x. inBuf buf Q (f x)"
  shows "inBuf buf Q (case m of Inl e \<Rightarrow> Inl e | Inr x \<Rightarrow> f x)"
proof (cases m)
  case (Inl e)
  then show ?thesis using assms(1) by (simp add: inBuf_def)
next
  case (Inr v)
  then show ?thesis using assms(2) by simp
qed

lemma inBuf_if:
  "(c \<Longrightarrow> inBuf buf Q a) \<Longrightarrow> (\<not> c \<Longrightarrow> inBuf buf Q b) \<Longrightarrow> inBuf buf Q (if c then a else b)"
  by simp

lemma inBuf_case_option:
  "(inBuf buf Q a) \<Longrightarrow> (\<And>y. inBuf buf Q (f y))
     \<Longrightarrow> inBuf buf Q (case x of None \<Rightarrow> a | Some y \<Rightarrow> f y)"
  by (simp split: option.splits)

lemma inBuf_Inr_pair: "p \<le> length buf \<Longrightarrow> inBuf buf (\<lambda>v. snd v \<le> length buf) (Inr (x, p))"
  by (simp add: inBuf_def)

lemma inBuf_Inr_nat: "p \<le> length buf \<Longrightarrow> inBuf buf (\<lambda>p. p \<le> length buf) (Inr p)"
  by (simp add: inBuf_def)

lemma inBuf_Inr_any: "inBuf buf (\<lambda>v. True) (Inr x)"
  by (simp add: inBuf_def)

lemma inBuf_errorf:
  "pos \<le> length buf \<Longrightarrow> Sprintf format args \<noteq> None \<Longrightarrow> inBuf buf P (errorf buf (int pos) format args)"
  by (simp add: inBuf_def errorf_def wfErr_def)

lemma inBuf_parseErr:
  "pos \<le> length buf \<Longrightarrow> Sprintf format args \<noteq> None
     \<Longrightarrow> inBuf buf P (Inl (ParserPanic (parseErr buf pos format args)))"
  by (simp add: inBuf_def wfErr_parseErr)

lemma inBuf_OutOfFuel: "inBuf buf P (Inl OutOfFuel)"
  by (simp add: inBuf_def)

lemmas inBuf_rules =
  inBuf_bind_nat inBuf_bind_pair inBuf_if inBuf_case_option inBuf_Inr_pair inBuf_Inr_nat
  inBuf_errorf inBuf_parseErr inBuf_OutOfFuel consumeTok_inBuf consumeKeyword_inBuf
  consumeIdentifier_inBuf

lemma parseDefineStmt_inBuf:
  "pos \<le> length buf \<Longrightarrow> inBuf buf (\<lambda>v. snd v \<le> length buf) (parseDefineStmt T n buf pos)"
  unfolding parseDefineStmt_def
  by (intro inBuf_rules parseExpr_inBuf; (assumption | simp))

lemma parseAssignStmt_inBuf:
  "pos \<le> length buf \<Longrightarrow> inBuf buf (\<lambda>v. snd v \<le> length buf) (parseAssignStmt T n buf pos)"
  unfolding parseAssignStmt_def
  by (intro inBuf_rules parseExpr_inBuf; (assumption | simp))

lemma parseVerifyStmt_inBuf:
  "pos \<le> length buf \<Longrightarrow> inBuf buf (\<lambda>v. snd v \<le> length buf) (parseVerifyStmt T n buf pos)"
  unfolding parseVerifyStmt_def
  by (intro inBuf_rules parseExpr_inBuf; (assumption | simp))

lemma parseLockStmt_inBuf:
  "pos \<le> length buf \<Longrightarrow> inBuf buf (\<lambda>v. snd v \<le> length buf) (parseLockStmt T n buf pos)"
  unfolding parseLockStmt_def
  by (intro inBuf_rules parseExpr_inBuf; (assumption | simp))

lemma parseUnlockStmt_inBuf:
  "pos \<le> length buf \<Longrightarrow> inBuf buf (\<lambda>v. snd v \<le> length buf) (parseUnlockStmt T n buf pos)"
  unfolding parseUnlockStmt_def
  by (intro inBuf_rules parseExpr_inBuf; (assumption | simp))

lemmas stmt_rules =
  inBuf_rules parseExpr_inBuf parseDefineStmt_inBuf parseAssignStmt_inBuf parseVerifyStmt_inBuf
  parseLockStmt_inBuf parseUnlockStmt_inBuf

lemma stmts_inBuf:
  "(\<forall>buf pos stmts. pos \<le> length buf \<longrightarrow>
      inBuf buf (\<lambda>v. snd v \<le> length buf) (parseStatements T n buf pos stmts))
 \<and> (\<forall>buf pos. pos \<le> length buf \<longrightarrow>
      inBuf buf (\<lambda>v. snd v \<le> length buf) (parseStatement T n buf pos))
 \<and> (\<forall>buf pos. pos \<le> length buf \<longrightarrow>
      inBuf buf (\<lambda>v. snd v \<le> length buf) (parseIfStmt T n buf pos))"
proof (induction n)
  case 0
  show ?case
    by (simp add: inBuf_def parseStatements.simps parseStatement.simps parseIfStmt.simps)
next
  case (Suc n)
  note ih1 = Suc.IH [THEN conjunct1, rule_format]
  note ih2 = Suc.IH [THEN conjunct2, THEN conjunct1, rule_format]
  note ih3 = Suc.IH [THEN conjunct2, THEN conjunct2, rule_format]
  have s1: "inBuf buf (\<lambda>v. snd v \<le> length buf) (parseStatements T (Suc n) buf pos stmts)"
    if "pos \<le> length buf" for buf pos stmts
    using that
    by (subst parseStatements.simps) (intro stmt_rules ih1 ih2 ih3; (assumption | simp))
  have s2: "inBuf buf (\<lambda>v. snd v \<le> length buf) (parseStatement T (Suc n) buf pos)"
    if "pos \<le> length buf" for buf pos
    using that
    by (subst parseStatement.simps) (intro stmt_rules ih1 ih2 ih3; (assumption | simp))
  have s3: "inBuf buf (\<lambda>v. snd v \<le> length buf) (parseIfStmt T (Suc n) buf pos)"
    if "pos \<le> length buf" for buf pos
    using that
    by (subst parseIfStmt.simps) (intro stmt_rules ih1 ih2 ih3; (assumption | simp))
  show ?case
    by (intro conjI allI impI; (erule s1 | erule s2 | erule s3))
qed

lemmas parseStatements_inBuf = stmts_inBuf [THEN conjunct1, rule_format]

lemma paramNames_inBuf:
  "pos \<le> length buf \<Longrightarrow> inBuf buf (\<lambda>v. snd v \<le> length buf) (paramNames n buf pos params)"
proof (induction n arbitrary: pos params)
  case 0
  show ?case by (simp add: inBuf_def)
next
  case (Suc n)
  from Suc.prems show ?case
    by (subst paramNames.simps) (intro inBuf_rules Suc.IH; (assumption | simp))
qed

lemma setParamTypes_inBuf:
  "pos \<le> length buf \<Longrightarrow> inBuf buf (\<lambda>v. True) (setParamTypes T buf pos typ params)"
proof (induction params)
  case Nil
  show ?case by (simp add: inBuf_def)
next
  case (Cons parm params)
  from Cons.prems show ?case
    by (subst setParamTypes.simps)
      (intro inBuf_case_option inBuf_bind_any inBuf_Inr_any inBuf_errorf Cons.IH; (assumption | simp))
qed

lemma parseParamsType_inBuf:
  "pos \<le> length buf \<Longrightarrow> inBuf buf (\<lambda>v. snd v \<le> length buf) (parseParamsType T n buf pos)"
  unfolding parseParamsType_def
  by (intro inBuf_rules inBuf_bind_any paramNames_inBuf setParamTypes_inBuf; (assumption | simp))

lemma paramsLoop_inBuf:
  "pos \<le> length buf \<Longrightarrow> inBuf buf (\<lambda>v. snd v \<le> length buf) (paramsLoop T n buf pos frst params)"
proof (induction n arbitrary: pos frst params)
  case 0
  show ?case by (simp add: inBuf_def)
next
  case (Suc n)
  from Suc.prems show ?case
    by (subst paramsLoop.simps)
      (intro inBuf_rules parseParamsType_inBuf Suc.IH; (assumption | simp))
qed

lemma parseParams_inBuf:
  "pos \<le> length buf \<Longrightarrow> inBuf buf (\<lambda>v. snd v \<le> length buf) (parseParams T n buf pos)"
  unfolding parseParams_def
  by (intro inBuf_rules paramsLoop_inBuf; (assumption | simp))

lemma parseClause_inBuf:
  "pos \<le> length buf \<Longrightarrow> inBuf buf (\<lambda>v. snd v \<le> length buf) (parseClause T n buf pos)"
  unfolding parseClause_def
  by (intro inBuf_rules parseParams_inBuf parseStatements_inBuf; (assumption | simp))

lemma parseClauses_inBuf:
  "pos \<le> length buf \<Longrightarrow> inBuf buf (\<lambda>v. snd v \<le> length buf) (parseClauses T n buf pos clauses)"
proof (induction n arbitrary: pos clauses)
  case 0
  show ?case by (simp add: inBuf_def)
next
  case (Suc n)
  from Suc.prems show ?case
    by (subst parseClauses.simps)
      (intro inBuf_rules parseClause_inBuf Suc.IH; (assumption | simp))
qed

lemma parseContract_inBuf:
  "pos \<le> length buf \<Longrightarrow> inBuf buf (\<lambda>v. snd v \<le> length buf) (parseContract T n buf pos)"
  unfolding parseContract_def
  by (intro inBuf_rules parseParams_inBuf parseClauses_inBuf; (assumption | simp))

lemma contractsLoop_inBuf:
  "pos \<le> length buf \<Longrightarrow> inBuf buf (\<lambda>v. snd v \<le> length buf) (contractsLoop T n buf pos result)"
proof (induction n arbitrary: pos result)
  case 0
  show ?case by (simp add: inBuf_def)
next
  case (Suc n)
  from Suc.prems show ?case
    by (subst contractsLoop.simps)
      (intro inBuf_rules parseContract_inBuf Suc.IH; (assumption | simp))
qed

lemma parseContracts_inBuf:
  "inBuf buf (\<lambda>v. snd v \<le> length buf) (parseImportDirectives buf pos)
     \<Longrightarrow> inBuf buf (\<lambda>v. snd v \<le> length buf) (parseContracts parseImportDirectives T n buf pos)"
  unfolding parseContracts_def
  by (intro inBuf_rules contractsLoop_inBuf; (assumption | simp))

section \<open>Lines and columns\<close>

lemma takeWhile_rev_Cons_newline:
  "length (takeWhile (\<lambda>c. c \<noteq> CHR 0x0A) (rev (x # xs))) =
     (if CHR 0x0A \<in> set xs then length (takeWhile (\<lambda>c. c \<noteq> CHR 0x0A) (rev xs))
      else if x = CHR 0x0A then length xs else Suc (length xs))"
proof (cases "CHR 0x0A \<in> set xs")
  case True
  then have "takeWhile (\<lambda>c. c \<noteq> CHR 0x0A) (rev xs @ [x]) = takeWhile (\<lambda>c. c \<noteq> CHR 0x0A) (rev xs)"
    by (intro takeWhile_append1 [of "CHR 0x0A"]) simp_all
  then show ?thesis using True by simp
next
  case False
  then have "takeWhile (\<lambda>c. c \<noteq> CHR 0x0A) (rev xs @ [x]) = rev xs @ takeWhile (\<lambda>c. c \<noteq> CHR 0x0A) [x]"
    by (intro takeWhile_append2) auto
  then show ?thesis using False by simp
qed

lemma errLoop_run:
  assumes "k \<le> length buf"
  shows "i \<le> k \<Longrightarrow>
    errLoop buf (int k) i line col =
      Some (line + length (filter (\<lambda>c. c = CHR 0x0A) (take (k - i) (drop i buf))),
            if CHR 0x0A \<in> set (take (k - i) (drop i buf))
            then length (takeWhile (\<lambda>c. c \<noteq> CHR 0x0A) (rev (take (k - i) (drop i buf))))
            else col + (k - i))"
proof (induction "k - i" arbitrary: i line col)
  case 0
  then show ?case by (subst errLoop.simps) simp
next
  case (Suc d)
  then have ik: "i < k" by simp
  then have il: "i < length buf" using assms by simp
  define xs where "xs = take (k - Suc i) (drop (Suc i) buf)"
  have split: "take (k - i) (drop i buf) = buf ! i # xs"
  proof -
    have "k - i = Suc (k - Suc i)" using ik by simp
    moreover have "drop i buf = buf ! i # drop (Suc i) buf"
      using il by (simp add: Cons_nth_drop_Suc)
    ultimately show ?thesis by (simp add: xs_def)
  qed
  have len: "length xs = k - Suc i" using assms ik by (simp add: xs_def)
  have step: "errLoop buf (int k) (Suc i) l c =
      Some (l + length (filter (\<lambda>c. c = CHR 0x0A) xs),
            if CHR 0x0A \<in> set xs
            then length (takeWhile (\<lambda>c. c \<noteq> CHR 0x0A) (rev xs))
            else c + (k - Suc i))" for l c
    unfolding xs_def using Suc.hyps(2) ik by (intro Suc.hyps(1)) simp_all
  have unfold: "errLoop buf (int k) i line col =
      (if buf ! i = CHR 0x0A then errLoop buf (int k) (Suc i) (Suc line) 0
       else errLoop buf (int k) (Suc i) line (Suc col))"
    using ik il by (subst errLoop.simps) simp
  have kk: "k - i = Suc (k - Suc i)" using ik by simp
  have "errLoop buf (int k) i line col =
      Some (line + length (filter (\<lambda>c. c = CHR 0x0A) (buf ! i # xs)),
            if CHR 0x0A \<in> set (buf ! i # xs)
            then length (takeWhile (\<lambda>c. c \<noteq> CHR 0x0A) (rev (buf ! i # xs)))
            else col + (k - i))"
    unfolding unfold step takeWhile_rev_Cons_newline len using kk by simp
  then show ?case unfolding split .
qed

lemma errLoop_line_col:
  assumes "k \<le> length buf"
  shows "errLoop buf (int k) 0 1 0 = Some (1 + newlinesBefore buf k, bytesSinceNewline buf k)"
proof -
  have tw: "length (takeWhile (\<lambda>c. c \<noteq> CHR 0x0A) (rev (take k buf))) = k"
    if "\<forall>x\<in>set (take k buf). x \<noteq> CHR 0x0A"
  proof -
    from that have "takeWhile (\<lambda>c. c \<noteq> CHR 0x0A) (rev (take k buf)) = rev (take k buf)"
      by (intro takeWhile_eq_all_conv [THEN iffD2]) auto
    then have "length (takeWhile (\<lambda>c. c \<noteq> CHR 0x0A) (rev (take k buf))) = length (rev (take k buf))"
      by (rule arg_cong)
    then show ?thesis using assms by simp
  qed
  show ?thesis
  proof (cases "CHR 0x0A \<in> set (take k buf)")
    case True
    then show ?thesis
      using errLoop_run [OF assms, of 0 1 0]
      by (simp add: newlinesBefore_def bytesSinceNewline_def)
  next
    case False
    then have "\<forall>x\<in>set (take k buf). x \<noteq> CHR 0x0A" by auto
    note t = tw [OF this]
    show ?thesis
      using errLoop_run [OF assms, of 0 1 0] False
      by (simp add: newlinesBefore_def bytesSinceNewline_def t)
  qed
qed

lemma Sprintf_line_col:
  "Sprintf (''line %d, col %d: '' @ format) (IntArg line # IntArg col # args) =
     map_option (\<lambda>msg. ''line '' @ itoa line @ '', col '' @ itoa col @ '': '' @ msg)
       (Sprintf format args)"
  by (simp add: option.map_comp comp_def)

section \<open>The error that parse returns\<close>

text \<open>
  C9. Whenever parsing stops with a parser error \<open>e\<close>, \<^verbatim>\<open>parse\<close> returns it to the caller as
  its error value, with no contract, and does not panic. The message of \<open>e\<close> is
  \<open>line L, col C: \<close> followed by the format of \<open>e\<close> filled with its arguments, where \<open>L\<close> is
  one plus the number of newline bytes before the offset of \<open>e\<close> and \<open>C\<close> the number of
  bytes since the last of them. The import directives are parsed outside \<^verbatim>\<open>parse.go\<close>; they
  are taken to leave the position in the buffer and to raise well-formed parser errors
  only, as every function of \<^verbatim>\<open>parse.go\<close> does.
\<close>

theorem parse_returns_located_error:
  assumes imp: "inBuf buf (\<lambda>v. snd v \<le> length buf) (parseImportDirectives buf 0)"
    and fail: "parseContracts parseImportDirectives T n buf 0 = Inl (ParserPanic e)"
  shows "parse parseImportDirectives T n buf = Returns [] (Some e)
    \<and> (\<exists>msg. Sprintf (errFormat e) (errArgs e) = Some msg
          \<and> Error e = Some (''line '' @ itoa (1 + newlinesBefore buf (nat (errOffset e)))
                @ '', col '' @ itoa (bytesSinceNewline buf (nat (errOffset e)))
                @ '': '' @ msg))"
proof -
  have "inBuf buf (\<lambda>v. snd v \<le> length buf) (parseContracts parseImportDirectives T n buf 0)"
    using imp by (rule parseContracts_inBuf)
  then have wf: "wfErr buf e" using fail by (rule inBuf_errD)
  then obtain msg where msg: "Sprintf (errFormat e) (errArgs e) = Some msg"
    by (auto simp: wfErr_def)
  define k where "k = nat (errOffset e)"
  from wf have k: "errOffset e = int k" "k \<le> length buf" "errBuf e = buf"
    by (simp_all add: wfErr_def k_def nat_le_iff)
  have "errLoop (errBuf e) (errOffset e) 0 1 0 = Some (1 + newlinesBefore buf k, bytesSinceNewline buf k)"
    unfolding k(1,3) using k(2) by (rule errLoop_line_col)
  then have "Error e = Some (''line '' @ itoa (1 + newlinesBefore buf k)
                @ '', col '' @ itoa (bytesSinceNewline buf k) @ '': '' @ msg)"
    by (simp add: Error_def Sprintf_line_col msg)
  moreover have "parse parseImportDirectives T n buf = Returns [] (Some e)"
    using fail by (simp add: parse_def)
  ultimately show ?thesis using msg by (simp add: k_def)
qed

text \<open>
  The theorem at a source without import directives whose second line lacks \<open>of\<close>: the
  error is at offset 22, line 2, column 9.
\<close>

theorem parse_returns_located_error_witness:
  "parse noImports specTables 40 sourceWithoutOf =
     Returns [] (Some \<lparr>errBuf = sourceWithoutOf, errOffset = 22,
                      errFormat = ''expected keyword %s'', errArgs = [StrArg ''of'']\<rparr>)
   \<and> Error \<lparr>errBuf = sourceWithoutOf, errOffset = 22,
            errFormat = ''expected keyword %s'', errArgs = [StrArg ''of'']\<rparr>
       = Some ''line 2, col 9: expected keyword of''"
proof -
  let ?e = "\<lparr>errBuf = sourceWithoutOf, errOffset = 22,
             errFormat = ''expected keyword %s'', errArgs = [StrArg ''of'']\<rparr>"
  have imp: "inBuf sourceWithoutOf (\<lambda>v. snd v \<le> length sourceWithoutOf) (noImports sourceWithoutOf 0)"
    by (simp add: noImports_def inBuf_def)
  have fail: "parseContracts noImports specTables 40 sourceWithoutOf 0 = Inl (ParserPanic ?e)"
    by code_simp
  have ev: "Sprintf ''expected keyword %s'' [StrArg ''of''] = Some ''expected keyword of''"
    "itoa (Suc (newlinesBefore sourceWithoutOf 22)) = ''2''"
    "itoa (bytesSinceNewline sourceWithoutOf 22) = ''9''"
    by code_simp+
  from parse_returns_located_error [OF imp fail] show ?thesis
    by (simp add: ev)
qed

section \<open>Identifiers and keywords\<close>

text \<open>
  What the scan functions do where an identifier token stands: \<^verbatim>\<open>scanIdentifier\<close> returns the
  token, whatever it is, no literal and no punctuation is scanned there, and only the
  tokens \<open>true\<close> and \<open>false\<close> are taken by \<^verbatim>\<open>scanBoolLiteral\<close>.
\<close>

lemma isLetter_facts:
  "isLetter c \<Longrightarrow> \<not> isSpace c" "isLetter c \<Longrightarrow> \<not> isDigit c" "isLetter c \<Longrightarrow> c \<noteq> CHR ''/''"
  "isLetter c \<Longrightarrow> c \<noteq> CHR ''-''" "isLetter c \<Longrightarrow> c \<noteq> CHR ''0''"
  "isLetter c \<Longrightarrow> c \<noteq> CHR 0x27" "isLetter c \<Longrightarrow> c \<noteq> CHR 0x22"
  by (auto simp: isLetter_def isSpace_def isDigit_def less_eq_char_def)

lemma identifierAt_cont:
  assumes "identifierAt buf pos w"
  shows "\<exists>rest. drop (skipWsAndComments buf pos) buf = w @ rest
           \<and> (rest = [] \<or> \<not> isIDChar (hd rest) False)"
proof -
  define s where "s = skipWsAndComments buf pos"
  from assms have tok: "identifierToken w" and pre: "prefix w (drop s buf)"
    and fin: "s + length w < length buf \<Longrightarrow>
       \<not> (isLetter (buf ! (s + length w)) \<or> isDigit (buf ! (s + length w)))"
    by (simp_all add: identifierAt_def afterToken_def s_def)
  from pre obtain rest where r: "drop s buf = w @ rest" by (auto simp: prefix_def)
  from tok have w: "w \<noteq> []" by (simp add: identifierToken_def)
  note d = drop_eq_appendD [OF r w]
  have "rest = [] \<or> \<not> isIDChar (hd rest) False"
  proof (cases rest)
    case Nil
    then show ?thesis by simp
  next
    case (Cons c cs)
    then have "buf ! (s + length w) = hd rest" using d(3) [of 0] by simp
    moreover have "s + length w < length buf" using d(1) Cons by simp
    ultimately show ?thesis using fin by (simp add: isIDChar_later)
  qed
  with r show ?thesis unfolding s_def by blast
qed

lemma identifierAt_token: "identifierAt buf pos w \<Longrightarrow> identifierToken w"
  by (simp add: identifierAt_def)





lemma identifierAt_start:
  assumes "identifierAt buf pos w"
  shows "skipWsAndComments buf pos < length buf" "isLetter (buf ! skipWsAndComments buf pos)"
proof -
  from identifierAt_cont [OF assms] obtain rest
    where r: "drop (skipWsAndComments buf pos) buf = w @ rest" by blast
  from identifierAt_token [OF assms] have w: "w \<noteq> []" "isLetter (hd w)"
    by (simp_all add: identifierToken_def)
  note d = drop_eq_appendD [OF r w(1)]
  from d(1) w(1) show "skipWsAndComments buf pos < length buf" by (cases w) simp_all
  from d(2) [of 0] w show "isLetter (buf ! skipWsAndComments buf pos)"
    by (simp add: hd_conv_nth)
qed

lemma skipWs_letter:
  "p < length buf \<Longrightarrow> isLetter (buf ! p) \<Longrightarrow> skipWsAndComments buf p = p"
  unfolding skipWsAndComments_def
  by (subst skipLoop.simps) (simp add: isLetter_facts)

lemma skipWs_at: "identifierAt buf pos w \<Longrightarrow>
  skipWsAndComments buf (skipWsAndComments buf pos) = skipWsAndComments buf pos"
  by (simp add: skipWs_letter identifierAt_start)


lemma afterToken_skipped:
  "identifierAt buf pos w \<Longrightarrow> afterToken buf (skipWsAndComments buf pos) w = afterToken buf pos w"
  by (simp add: afterToken_def skipWs_at)





























text \<open>The whole source of keywords, parsed.\<close>

lemma parse_sourceOfKeywords:
  "parse noImports specTables 40 sourceOfKeywords
   = Returns
      [\<lparr>contractName = ''lock'',
        contractParams =
          [\<lparr>paramName = ''verify'', paramType = ''Integer''\<rparr>,
           \<lparr>paramName = ''x'', paramType = ''Integer''\<rparr>],
        contractClauses =
          [\<lparr>clauseName = ''clause'',
            clauseParams = [\<lparr>paramName = ''else'', paramType = ''Program''\<rparr>],
            statements =
              [DefineStatement \<lparr>paramName = ''if'', paramType = ''Integer''\<rparr> None,
               AssignStatement \<lparr>paramName = ''of'', paramType = []\<rparr> (VarRef ''with''),
               VerifyStatement (VarRef ''lock'')]\<rparr>],
        contractValue = \<lparr>Amount = ''locks'', Asset = ''of''\<rparr>\<rparr>]
      None"
  by code_simp

section \<open>Hex literals with an odd number of digits\<close>

text \<open>
  C2, as the code has it. Where the text after whitespace and comments is \<open>0x\<close> or \<open>0X\<close>,
  an odd number of hex digits and then the end of the input or a byte that is no hex
  digit, \<^verbatim>\<open>scanBytesLiteral\<close> panics with the parser error "odd number of digits in hex
  literal" at the offset of the \<open>0\<close> when there are three digits or more. With a single
  digit it returns no match: the literal needs two hex digits after the \<open>x\<close> to be tried
  at all.
\<close>

theorem scanBytesLiteral_odd_digits:
  assumes cont: "drop (skipWsAndComments buf offset) buf = CHR ''0'' # x # ds @ rest"
    and x: "x = CHR ''x'' \<or> x = CHR ''X''"
    and ds: "list_all isHexDigit ds"
    and odd: "odd (length ds)"
    and stop: "rest = [] \<or> \<not> isHexDigit (hd rest)"
  shows "scanBytesLiteral buf offset =
    (if length ds = 1 then Inr None
     else Inl (ParserPanic (parseErr buf (skipWsAndComments buf offset)
                 ''odd number of digits in hex literal'' [])))"
proof -
  define off where "off = skipWsAndComments buf offset"
  have cont': "drop off buf = (CHR ''0'' # x # ds) @ rest" using cont by (simp add: off_def)
  note d = drop_eq_appendD [OF cont']
  have len: "length buf = off + 2 + length ds + length rest" using d(1) by simp
  have b0: "buf ! off = CHR ''0''" using d(2) [of 0] by simp
  have b1: "buf ! (off + 1) = x" using d(2) [of 1] by simp
  have bd: "buf ! (off + 2 + k) = ds ! k" if "k < length ds" for k
    using d(2) [of "k + 2"] that by (simp add: add.commute add.left_commute)
  have br: "buf ! (off + 2 + length ds) = hd rest" if "rest \<noteq> []"
    using d(3) [of 0] that by (simp add: hd_conv_nth)
  have hexd: "\<forall>k<length ds. isHexDigit (buf ! (off + 2 + k))"
    using bd ds by (simp add: list_all_length)
  have fin: "off + 2 + length ds = length buf \<or> \<not> isHexDigit (buf ! (off + 2 + length ds))"
  proof (cases "rest = []")
    case True
    then show ?thesis using len by simp
  next
    case False
    then show ?thesis using br stop by simp
  qed
  show ?thesis
  proof (cases "length ds = 1")
    case True
    have "off + 4 \<ge> length buf \<or> \<not> isHexDigit (buf ! (off + 3))"
    proof (cases "rest = []")
      case True
      then show ?thesis using len \<open>length ds = 1\<close> by simp
    next
      case False
      then have "buf ! (off + 3) = hd rest" using br True by (simp add: numeral_3_eq_3)
      then show ?thesis using stop False by simp
    qed
    then show ?thesis using True
      by (auto simp: scanBytesLiteral_def off_def [symmetric] Let_def)
  next
    case False
    with odd have m3: "3 \<le> length ds" by (cases "length ds") (auto simp: numeral_3_eq_3 elim: oddE)
    then have "0 < length ds" "1 < length ds" by auto
    then have "isHexDigit (buf ! (off + 2 + 0))" "isHexDigit (buf ! (off + 2 + 1))"
      using hexd by blast+
    then have h2: "isHexDigit (buf ! (off + 2))" "isHexDigit (buf ! (off + 3))"
      by (simp_all add: numeral_3_eq_3)
    have "hexLoop buf off (off + 2 + 2) =
        Inl (ParserPanic (parseErr buf off ''odd number of digits in hex literal'' []))"
      using hexd _ fin odd
    proof (rule hexLoop_odd)
      show "off + 2 + length ds \<le> length buf" using len by simp
      show "even (2::nat)" by simp
      show "2 < length ds" using m3 by simp
    qed
    moreover have "off + 2 + 2 = off + 4" by simp
    ultimately have "hexLoop buf off (off + 4) =
        Inl (ParserPanic (parseErr buf off ''odd number of digits in hex literal'' []))"
      by (simp only:)
    moreover have "\<not> off + 4 \<ge> length buf" using len m3 by simp
    ultimately show ?thesis using False b0 b1 x h2
      by (auto simp: scanBytesLiteral_def off_def [symmetric] Let_def)
  qed
qed

text \<open>The theorem at \<open>0xabc;\<close> after a blank: the error is at offset 1, column 1 of line 1.\<close>

theorem scanBytesLiteral_odd_digits_witness:
  "list_all isHexDigit ''abc'' \<and> odd (length ''abc'')
   \<and> scanBytesLiteral '' 0xabc;'' 0 =
       Inl (ParserPanic (parseErr '' 0xabc;'' 1 ''odd number of digits in hex literal'' []))
   \<and> Error (parseErr '' 0xabc;'' 1 ''odd number of digits in hex literal'' []) =
       Some ''line 1, col 1: odd number of digits in hex literal''"
proof -
  have s: "skipWsAndComments '' 0xabc;'' 0 = 1" by code_simp
  have h1: "drop (skipWsAndComments '' 0xabc;'' 0) '' 0xabc;'' = CHR ''0'' # CHR ''x'' # ''abc'' @ '';''"
    by code_simp
  have h2: "CHR ''x'' = CHR ''x'' \<or> CHR ''x'' = CHR ''X''" by simp
  have h3: "list_all isHexDigit ''abc''" by code_simp
  have h4: "odd (length ''abc'')" by simp
  have h5: "'';'' = [] \<or> \<not> isHexDigit (hd '';'')" by code_simp
  have e: "Error (parseErr '' 0xabc;'' 1 ''odd number of digits in hex literal'' []) =
       Some ''line 1, col 1: odd number of digits in hex literal''" by code_simp
  from scanBytesLiteral_odd_digits [OF h1 h2 h3 h4 h5] h3 h4 e show ?thesis
    by (simp add: s)
qed

text \<open>
  C2 as stated fails for a literal of one digit: \<open>0xa\<close> after a blank raises no lexical
  error. The scanner returns no match, and the expression parser stops with "expected
  identifier" at offset 0, before the blank, not at the \<open>0\<close> of the literal.
\<close>

theorem scanBytesLiteral_one_digit_counterexample:
  "scanBytesLiteral '' 0xa'' 0 = Inr None
   \<and> parseExpr specTables 20 '' 0xa'' 0 = errorf '' 0xa'' 0 ''expected identifier'' []"
  by code_simp

section \<open>Integer literals\<close>

text \<open>
  C5, as the code has it. Where the text after whitespace and comments is an optional
  \<open>-\<close>, then one or more decimal digits, then the end of the input or a byte that is no
  digit, \<^verbatim>\<open>scanIntLiteral\<close> returns the value of the token and the position after it when
  the value fits in 64 bits signed. It declines when the value does not fit, and when the
  token is the digit \<open>0\<close> followed by \<open>x\<close> or \<open>X\<close>, the start of a hex literal. Nothing is
  said here of a longer token whose last digit is \<open>0\<close> and that is followed by \<open>x\<close> or \<open>X\<close>.
\<close>

theorem scanIntLiteral_token:
  assumes cont: "drop (skipWsAndComments buf pos) buf = sign @ ds @ rest"
    and sign: "sign = [] \<or> sign = ''-''"
    and ds: "ds \<noteq> []" "list_all isDigit ds"
    and stop: "rest = [] \<or> \<not> isDigit (hd rest)"
    and v: "v = (if sign = [] then decimalVal ds else - decimalVal ds)"
    and inner: "2 \<le> length ds \<and> last ds = CHR ''0''
                 \<longrightarrow> rest = [] \<or> (hd rest \<noteq> CHR ''x'' \<and> hd rest \<noteq> CHR ''X'')"
  shows "scanIntLiteral buf pos =
    (if ds = ''0'' \<and> rest \<noteq> [] \<and> (hd rest = CHR ''x'' \<or> hd rest = CHR ''X'') then None
     else if - (2 ^ 63) \<le> v \<and> v \<le> 2 ^ 63 - 1
       then Some (v, skipWsAndComments buf pos + length sign + length ds)
     else None)"
proof -
  define off where "off = skipWsAndComments buf pos"
  define b where "b = off + length sign"
  define m where "m = length ds"
  have cont': "drop off buf = (sign @ ds) @ rest" using cont by (simp add: off_def)
  have ne: "sign @ ds \<noteq> []" using ds by simp
  note d = drop_eq_appendD [OF cont' ne]
  have len: "length buf = b + m + length rest" using d(1) by (simp add: b_def m_def)
  have m0: "0 < m" using ds by (simp add: m_def)
  have bd: "buf ! (b + k) = ds ! k" if "k < m" for k
    using d(2) [of "length sign + k"] that by (simp add: b_def m_def add.assoc nth_append)
  have br: "buf ! (b + m) = hd rest" if "rest \<noteq> []"
    using d(3) [of 0] that by (simp add: hd_conv_nth b_def m_def add.assoc)
  have b0: "buf ! off = hd (sign @ ds)" using d(2) [of 0] ne by (simp add: hd_conv_nth)
  have start: "(if off < length buf \<and> buf ! off = CHR ''-'' then off + 1 else off) = b"
  proof (cases "sign = []")
    case True
    then have "isDigit (buf ! off)" using b0 ds by (cases ds) simp_all
    then have "buf ! off \<noteq> CHR ''-''" by (auto simp: not_isDigit_x)
    then show ?thesis using True by (simp add: b_def)
  next
    case False
    with sign have "sign = ''-''" by simp
    then show ?thesis using b0 len by (simp add: b_def)
  qed
  have digits: "\<forall>k<m. isDigit (buf ! (b + k))"
    using bd ds by (simp add: list_all_length m_def)
  have fin: "b + m = length buf \<or> \<not> isDigit (buf ! (b + m))"
  proof (cases "rest = []")
    case True
    then show ?thesis using len by simp
  next
    case False
    then show ?thesis using br stop by simp
  qed
  have "b + m - 1 = b + (m - 1)" using m0 by simp
  then have lastd: "buf ! (b + m - 1) = last ds"
    using bd [of "m - 1"] m0 ds(1) by (simp add: last_conv_nth m_def)
  show ?thesis
  proof (cases "ds = ''0'' \<and> rest \<noteq> [] \<and> (hd rest = CHR ''x'' \<or> hd rest = CHR ''X'')")
    case True
    then have m1: "m = 1" by (simp add: m_def)
    have "b + 1 < length buf" using len True m1 by (cases rest) simp_all
    moreover have "buf ! b = CHR ''0''" using bd [of 0] True m1 by simp
    moreover have "buf ! (b + 1) = CHR ''x'' \<or> buf ! (b + 1) = CHR ''X''"
      using br True m1 by auto
    ultimately have "intLoop buf b = None" by (rule intLoop_hex)
    then show ?thesis using True start
      by (simp add: scanIntLiteral_def off_def [symmetric] Let_def)
  next
    case False
    have nohex: "\<not> (0 < m \<and> buf ! (b + m - 1) = CHR ''0'' \<and> b + m < length buf
                  \<and> (buf ! (b + m) = CHR ''x'' \<or> buf ! (b + m) = CHR ''X''))"
    proof
      assume a: "0 < m \<and> buf ! (b + m - 1) = CHR ''0'' \<and> b + m < length buf
                  \<and> (buf ! (b + m) = CHR ''x'' \<or> buf ! (b + m) = CHR ''X'')"
      then have r: "rest \<noteq> []" using len by auto
      with a br have hx: "hd rest = CHR ''x'' \<or> hd rest = CHR ''X''" by simp
      from a lastd have l0: "last ds = CHR ''0''" by simp
      show False
      proof (cases "2 \<le> length ds")
        case True
        with inner l0 r hx show False by auto
      next
        case short: False
        with m0 have "length ds = 1" unfolding m_def by linarith
        then have "ds = [last ds]" by (cases ds) auto
        with l0 have "ds = ''0''" by simp
        with False r hx show False by simp
      qed
    qed
    have "intLoop buf (b + 0) = Some (b + m)"
      using digits _ fin nohex by (rule intLoop_run) (simp_all add: len)
    then have loop: "intLoop buf b = Some (b + m)" by simp
    have sl: "slice buf off (b + m) = sign @ ds"
      using d(4) by (simp add: b_def m_def add.assoc)
    have parse: "ParseInt (sign @ ds) =
        (if - (2 ^ 63) \<le> v \<and> v \<le> 2 ^ 63 - 1 then Inr v else Inl ErrRange)"
    proof (cases "sign = []")
      case True
      then show ?thesis
        using ParseInt_digits [OF ds] decimalVal_nonneg [OF ds(2)] v by auto
    next
      case False
      with sign have "sign = ''-''" by simp
      then show ?thesis
        using ParseInt_minus_digits [OF ds] decimalVal_nonneg [OF ds(2)] v by auto
    qed
    show ?thesis using False start loop m0 sl parse
      by (simp add: scanIntLiteral_def off_def [symmetric] Let_def b_def m_def add.assoc)
  qed
qed

text \<open>The theorem at \<open>-40+1\<close> after a blank: the token \<open>-40\<close> has the value -40.\<close>

theorem scanIntLiteral_token_witness:
  "list_all isDigit ''40'' \<and> 2 \<le> length ''40'' \<and> last ''40'' = CHR ''0''
   \<and> scanIntLiteral '' -40+1'' 0 = Some (- 40, 4)"
proof -
  have s: "skipWsAndComments '' -40+1'' 0 = 1" by code_simp
  have h1: "drop (skipWsAndComments '' -40+1'' 0) '' -40+1'' = ''-'' @ ''40'' @ ''+1''" by code_simp
  have h2: "''-'' = [] \<or> ''-'' = ''-''" by simp
  have h3: "''40'' \<noteq> []" by simp
  have h4: "list_all isDigit ''40''" by code_simp
  have h5: "''+1'' = [] \<or> \<not> isDigit (hd ''+1'')" by code_simp
  have h6: "- 40 = (if ''-'' = [] then decimalVal ''40'' else - decimalVal ''40'')" by code_simp
  have h7: "2 \<le> length ''40'' \<and> last ''40'' = CHR ''0''
      \<longrightarrow> ''+1'' = [] \<or> (hd ''+1'' \<noteq> CHR ''x'' \<and> hd ''+1'' \<noteq> CHR ''X'')" by simp
  from scanIntLiteral_token [OF h1 h2 h3 h4 h5 h6 h7] h4 show ?thesis
    by (simp add: s)
qed

text \<open>
  C5 as stated fails: the scanner also declines a token that is no prefix of a hex
  literal, when its value is outside 64 bits signed. 9223372036854775807 is scanned,
  9223372036854775808 is declined.
\<close>

theorem scanIntLiteral_overflow_counterexample:
  "scanIntLiteral ''9223372036854775807'' 0 = Some (9223372036854775807, 19)
   \<and> scanIntLiteral ''9223372036854775808'' 0 = None"
  by code_simp

section \<open>Unary operators and signed literals\<close>

text \<open>
  \<^verbatim>\<open>scanUnaryOp\<close> first asks \<^verbatim>\<open>scanIntLiteral\<close>, and returns no match where that one matches,
  whatever the operator table; where it declines, \<open>-\<close> and \<open>!\<close> are recognized as the
  unary operators of the table (here the table of the specification, which holds exactly
  these two).
\<close>

lemma scanUnaryOp_follows_scanIntLiteral:
  "(scanIntLiteral buf offset \<noteq> None \<longrightarrow> scanUnaryOp T buf offset = None)
   \<and> (scanIntLiteral buf offset = None \<longrightarrow> scanTok buf offset ''-'' = Some p
        \<longrightarrow> scanUnaryOp specTables buf offset = Some (\<lparr>unOp = ''-''\<rparr>, p))
   \<and> (scanIntLiteral buf offset = None \<longrightarrow> scanTok buf offset ''!'' = Some p
        \<longrightarrow> scanUnaryOp specTables buf offset = Some (\<lparr>unOp = ''!''\<rparr>, p))"
proof (intro conjI impI)
  assume "scanIntLiteral buf offset \<noteq> None"
  then show "scanUnaryOp T buf offset = None"
    by (auto simp: scanUnaryOp_def)
next
  assume "scanIntLiteral buf offset = None" "scanTok buf offset ''-'' = Some p"
  then show "scanUnaryOp specTables buf offset = Some (\<lparr>unOp = ''-''\<rparr>, p)"
    by (simp add: scanUnaryOp_def specTables_def specUnaryOps_def)
next
  assume n: "scanIntLiteral buf offset = None" and t: "scanTok buf offset ''!'' = Some p"
  from scanTok_SomeD [OF t] have "prefix ''!'' (drop (skipWsAndComments buf offset) buf)" by simp
  then have "\<not> prefix ''-'' (drop (skipWsAndComments buf offset) buf)"
    by (cases "drop (skipWsAndComments buf offset) buf") auto
  then have "scanTok buf offset ''-'' = None" by (simp add: scanTok_def Let_def)
  with n t show "scanUnaryOp specTables buf offset = Some (\<lparr>unOp = ''!''\<rparr>, p)"
    by (simp add: scanUnaryOp_def specTables_def specUnaryOps_def)
qed

text \<open>
  \<open>-3\<close> is one literal; in \<open>- 3\<close> the blank ends the literal before it has a digit, and
  the minus is the unary operator applied to 3.
\<close>

lemma scanUnaryOp_signed_literals:
  "scanIntLiteral ''-3'' 0 = Some (- 3, 2) \<and> scanUnaryOp specTables ''-3'' 0 = None
   \<and> parseExpr specTables 20 ''-3'' 0 = Inr (IntegerLiteral (- 3), 2)
   \<and> scanIntLiteral ''- 3'' 0 = None
   \<and> scanUnaryOp specTables ''- 3'' 0 = Some (\<lparr>unOp = ''-''\<rparr>, 1)
   \<and> parseExpr specTables 20 ''- 3'' 0 = Inr (UnaryExpr \<lparr>unOp = ''-''\<rparr> (IntegerLiteral 3), 3)
   \<and> scanUnaryOp specTables ''!x'' 0 = Some (\<lparr>unOp = ''!''\<rparr>, 1)"
  by code_simp

text \<open>
  C6. The unary-operator scanner should return no match wherever a valid integer literal
  begins. In \<open>-10x\<close> the literal \<open>-10\<close> begins, and it fits in 64 bits, but the digit loop of
  \<^verbatim>\<open>scanIntLiteral\<close> tests every digit, not only the first, for a \<open>0\<close> followed by \<open>x\<close> or \<open>X\<close>
  and declines; \<^verbatim>\<open>scanUnaryOp\<close> then returns the unary minus, and the expression parser
  ends with "expected identifier" at the offset of \<open>10x\<close>. With a blank before the \<open>x\<close> the
  same text is the literal -10 and no operator.
\<close>

theorem scanUnaryOp_minus_before_10x:
  "ParseInt ''-10'' = Inr (- 10)
   \<and> scanIntLiteral ''-10x'' 0 = None
   \<and> scanUnaryOp specTables ''-10x'' 0 = Some (\<lparr>unOp = ''-''\<rparr>, 1)
   \<and> parseExpr specTables 20 ''-10x'' 0 = errorf ''-10x'' 1 ''expected identifier'' []
   \<and> parse noImports specTables 40 ''contract X() locks a of b { clause c() { verify -10x } }'' =
       Returns [] (Some \<lparr>errBuf = ''contract X() locks a of b { clause c() { verify -10x } }'',
         errOffset = 49, errFormat = ''expected identifier'', errArgs = []\<rparr>)
   \<and> scanIntLiteral ''-10 x'' 0 = Some (- 10, 3)
   \<and> scanUnaryOp specTables ''-10 x'' 0 = None"
  by code_simp

theorem scanUnaryOp_minus_before_10x_witness:
  "scanUnaryOp specTables ''-10x'' 0 \<noteq> None"
  using scanUnaryOp_minus_before_10x by simp

section \<open>Contracts without clauses\<close>

text \<open>
  C8, as the code has it. \<^verbatim>\<open>parseClauses\<close> loops while the next token is not \<open>}\<close>, so a body
  may hold no clause at all: when the header of a contract is read and its \<open>{\<close> is
  followed by \<open>}\<close>, \<^verbatim>\<open>parseContract\<close> returns the contract with an empty list of clauses.
\<close>

theorem parseContract_without_clauses:
  assumes "consumeKeyword buf pos ''contract'' = Inr pos1"
    and "consumeIdentifier buf pos1 = Inr (name, pos2)"
    and "parseParams T (Suc n) buf pos2 = Inr (params, pos3)"
    and "consumeKeyword buf pos3 ''locks'' = Inr pos4"
    and "consumeIdentifier buf pos4 = Inr (amount, pos5)"
    and "consumeKeyword buf pos5 ''of'' = Inr pos6"
    and "consumeIdentifier buf pos6 = Inr (asset, pos7)"
    and "consumeTok buf pos7 ''{'' = Inr pos8"
    and "consumeTok buf pos8 ''}'' = Inr pos9"
  shows "parseContract T (Suc n) buf pos =
    Inr (\<lparr>contractName = name, contractParams = params, contractClauses = [],
          contractValue = \<lparr>Amount = amount, Asset = asset\<rparr>\<rparr>, pos9)"
proof -
  have "parseClauses T (Suc n) buf pos8 [] = Inr ([], pos8)"
    using consumeTok_peekTok [OF assms(9)] by simp
  then show ?thesis using assms by (simp add: parseContract_def)
qed

text \<open>The theorem at \<open>contract X() locks a of b { }\<close>.\<close>

theorem parseContract_without_clauses_witness:
  "parseContract specTables 20 ''contract X() locks a of b { }'' 0 =
    Inr (\<lparr>contractName = ''X'', contractParams = [], contractClauses = [],
          contractValue = \<lparr>Amount = ''a'', Asset = ''b''\<rparr>\<rparr>, 29)"
proof -
  have h: "consumeKeyword ''contract X() locks a of b { }'' 0 ''contract'' = Inr 8"
    "consumeIdentifier ''contract X() locks a of b { }'' 8 = Inr (''X'', 10)"
    "parseParams specTables (Suc 19) ''contract X() locks a of b { }'' 10 = Inr ([], 12)"
    "consumeKeyword ''contract X() locks a of b { }'' 12 ''locks'' = Inr 18"
    "consumeIdentifier ''contract X() locks a of b { }'' 18 = Inr (''a'', 20)"
    "consumeKeyword ''contract X() locks a of b { }'' 20 ''of'' = Inr 23"
    "consumeIdentifier ''contract X() locks a of b { }'' 23 = Inr (''b'', 25)"
    "consumeTok ''contract X() locks a of b { }'' 25 ''{'' = Inr 27"
    "consumeTok ''contract X() locks a of b { }'' 27 ''}'' = Inr 29"
    by code_simp+
  have "Suc 19 = 20" by simp
  with parseContract_without_clauses [OF h] show ?thesis by simp
qed

text \<open>
  C8 as stated fails: parsing \<open>contract X() locks a of b { }\<close> raises no error, \<^verbatim>\<open>parse\<close>
  returns the contract.
\<close>

theorem parse_contract_without_clauses_counterexample:
  "parse noImports specTables 40 ''contract X() locks a of b { }'' =
    Returns [\<lparr>contractName = ''X'', contractParams = [], contractClauses = [],
              contractValue = \<lparr>Amount = ''a'', Asset = ''b''\<rparr>\<rparr>] None"
  by code_simp

section \<open>Precedence climbing\<close>








section \<open>Hex literals at the end of the buffer\<close>

text \<open>
  C4. A hex literal with an even number of digits, followed by a byte that is no hex digit
  or by the end of the input, should scan to its bytes. \<^verbatim>\<open>scanBytesLiteral\<close> does so when at
  least two bytes follow the digits. With two digits at the very end of the buffer it
  returns no match (\<^verbatim>\<open>offset+4 >= len(buf)\<close>), and with exactly one byte after the digits it
  panics with "odd number of digits in hex literal" (\<^verbatim>\<open>i == len(buf)-1\<close> is tested before
  \<^verbatim>\<open>buf[i]\<close> is looked at).
\<close>

theorem scanBytesLiteral_two_digits_at_end:
  "scanBytesLiteral ''0xab'' 0 = Inr None
   \<and> scanBytesLiteral ''0xab}'' 0 =
       Inl (ParserPanic (parseErr ''0xab}'' 0 ''odd number of digits in hex literal'' []))
   \<and> scanBytesLiteral ''0xab}}'' 0 = Inr (Some ([CHR 0xAB], 4))"
  by code_simp

theorem scanBytesLiteral_two_digits_at_end_witness:
  "scanBytesLiteral ''0xab'' 0 \<noteq> Inr (Some ([CHR 0xAB], 4))
   \<and> scanBytesLiteral ''0xab}'' 0 \<noteq> Inr (Some ([CHR 0xAB], 4))"
  using scanBytesLiteral_two_digits_at_end by (simp add: parseErr_def)

section \<open>Integer literals before an x\<close>

text \<open>
  C3. A decimal literal whose value fits in 64 bits should be parsed to that value. The
  digit loop of \<^verbatim>\<open>scanIntLiteral\<close> tests every digit, not only the first, for a \<open>0\<close> followed
  by \<open>x\<close> or \<open>X\<close>: in \<open>10x\<close> the literal \<open>10\<close> is declined, and the expression parser ends
  with "expected identifier".
\<close>

theorem scanIntLiteral_declines_10x:
  "scanIntLiteral ''10x'' 0 = None
   \<and> ParseInt ''10'' = Inr 10
   \<and> scanIntLiteral ''10 x'' 0 = Some (10, 2)
   \<and> parseExpr specTables 20 ''10x'' 0 = errorf ''10x'' 0 ''expected identifier'' []"
  by code_simp

theorem scanIntLiteral_declines_10x_witness:
  "scanIntLiteral ''10x'' 0 \<noteq> Some (10, 2)"
  using scanIntLiteral_declines_10x by simp

end
